theory Spec2Isabelle
  imports Main "HOL-Library.AList" "HOL-Library.Char_ord" "HOL-Library.List_Lexorder"
begin

section \<open>Strings of the scripts\<close>

text \<open>
  The three scripts (\<^verbatim>\<open>scripts/gettext_split.py\<close>, \<^verbatim>\<open>scripts/migrate_translations.py\<close>,
  \<^verbatim>\<open>scripts/verify_translations.py\<close>) work on Python \<^verbatim>\<open>str\<close> values. A Python string is
  modelled as a \<^typ>\<open>string\<close>, each \<^typ>\<open>char\<close> standing for one code point below 256;
  the character classes below are the ones Python gives these code points.
\<close>

abbreviation NL :: char where "NL \<equiv> CHR 0x0A"
abbreviation QUOTE :: char where "QUOTE \<equiv> CHR 0x22"
abbreviation BSLASH :: char where "BSLASH \<equiv> CHR 0x5C"

text \<open>\<^verbatim>\<open>s.startswith(p)\<close>.\<close>

definition startswith :: "string \<Rightarrow> string \<Rightarrow> bool" where
  "startswith s p = (take (length p) s = p)"

text \<open>
  \<^verbatim>\<open>s.replace(old, new)\<close>: the occurrences of \<^verbatim>\<open>old\<close> are found from left to right and
  do not overlap; with an empty \<^verbatim>\<open>old\<close>, \<^verbatim>\<open>new\<close> is put before every character and at
  the end.
\<close>

function replace_from :: "string \<Rightarrow> string \<Rightarrow> string \<Rightarrow> string" where
  "replace_from old new [] = []"
| "replace_from old new (c # cs) =
     (if old \<noteq> [] \<and> startswith (c # cs) old
      then new @ replace_from old new (drop (length old) (c # cs))
      else c # replace_from old new cs)"
  by pat_completeness auto
termination
  by (relation "measure (\<lambda>(old, new, s). length s)") auto

declare replace_from.simps(2) [simp del]

definition str_replace :: "string \<Rightarrow> string \<Rightarrow> string \<Rightarrow> string" where
  "str_replace old new s =
     (if old = [] then new @ concat (map (\<lambda>c. c # new) s) else replace_from old new s)"

section \<open>The codec's escaping (migrate_translations.py, verify_translations.py)\<close>

text \<open>
  \<^verbatim>\<open>def _unescape(s): return s.replace('\\n', '\n').replace('\\"', '"').replace('\\\\', '\\')\<close>
  (the same body in both scripts) and
  \<^verbatim>\<open>def _escape(s): return s.replace('\\', '\\\\').replace('"', '\\"').replace('\n', '\\n')\<close>.
\<close>

definition unescape :: "string \<Rightarrow> string" where
  "unescape s =
     str_replace [BSLASH, BSLASH] [BSLASH]
       (str_replace [BSLASH, QUOTE] [QUOTE]
         (str_replace [BSLASH, CHR ''n''] [NL] s))"

definition escape :: "string \<Rightarrow> string" where
  "escape s =
     str_replace [NL] [BSLASH, CHR ''n'']
       (str_replace [QUOTE] [BSLASH, QUOTE]
         (str_replace [BSLASH] [BSLASH, BSLASH] s))"

text \<open>A backslash immediately followed by the letter n somewhere in the string.\<close>

fun has_backslash_n :: "string \<Rightarrow> bool" where
  "has_backslash_n (a # b # r) = ((a = BSLASH \<and> b = CHR ''n'') \<or> has_backslash_n (b # r))"
| "has_backslash_n _ = False"

section \<open>The domain resolver (gettext_split.py)\<close>

definition DOMAIN_RULES :: "(string \<times> string) list" where
  "DOMAIN_RULES =
    [(''storyarn_web/live/flow_live/'', ''flows''),
     (''storyarn_web/components/condition_builder.ex'', ''flows''),
     (''storyarn_web/components/instruction_builder.ex'', ''flows''),
     (''storyarn_web/components/sidebar/flow_tree.ex'', ''flows''),
     (''storyarn_web/live/map_live/'', ''maps''),
     (''storyarn_web/components/sidebar/map_tree.ex'', ''maps''),
     (''storyarn_web/live/sheet_live/'', ''sheets''),
     (''storyarn_web/components/block_components.ex'', ''sheets''),
     (''storyarn_web/components/block_components/'', ''sheets''),
     (''storyarn_web/components/audio_picker.ex'', ''sheets''),
     (''storyarn_web/components/sidebar/sheet_tree.ex'', ''sheets''),
     (''storyarn/sheets/versioning.ex'', ''sheets''),
     (''storyarn_web/live/localization_live/'', ''localization''),
     (''storyarn_web/live/project_live/'', ''projects''),
     (''storyarn_web/live/workspace_live/'', ''workspaces''),
     (''storyarn_web/live/settings_live/workspace_members.ex'', ''workspaces''),
     (''storyarn_web/live/settings_live/workspace_general.ex'', ''workspaces''),
     (''storyarn_web/live/screenplay_live/'', ''screenplays''),
     (''storyarn_web/controllers/screenplay_export_controller.ex'', ''screenplays''),
     (''storyarn_web/components/sidebar/screenplay_tree.ex'', ''screenplays''),
     (''storyarn_web/live/user_live/'', ''identity''),
     (''storyarn_web/controllers/user_session_controller.ex'', ''identity''),
     (''storyarn_web/controllers/oauth_controller.ex'', ''identity''),
     (''storyarn_web/user_auth.ex'', ''identity''),
     (''storyarn/accounts/registration.ex'', ''identity''),
     (''storyarn_web/live/settings_live/profile.ex'', ''settings''),
     (''storyarn_web/live/settings_live/security.ex'', ''settings''),
     (''storyarn_web/live/settings_live/connections.ex'', ''settings''),
     (''storyarn_web/live/asset_live/'', ''assets''),
     (''storyarn_web/live/components/asset_upload.ex'', ''assets''),
     (''storyarn_web/components/layouts.ex'', ''default''),
     (''storyarn_web/components/core_components.ex'', ''default''),
     (''storyarn_web/components/project_sidebar.ex'', ''default''),
     (''storyarn_web/components/sidebar.ex'', ''default''),
     (''storyarn_web/components/collaboration_components.ex'', ''default''),
     (''storyarn_web/components/member_components.ex'', ''default''),
     (''storyarn_web/components/save_indicator.ex'', ''default''),
     (''storyarn_web/components/ui_components.ex'', ''default''),
     (''storyarn_web/helpers/authorize.ex'', ''default'')]"

text \<open>
  \<^verbatim>\<open>for prefix, domain in DOMAIN_RULES: if rel_path.startswith(prefix): return domain\<close>,
  and \<^verbatim>\<open>return None\<close> after the loop. The loop over a rule list:
\<close>

fun first_rule :: "(string \<times> string) list \<Rightarrow> string \<Rightarrow> string option" where
  "first_rule [] rel_path = None"
| "first_rule ((pre, domain) # rules) rel_path =
     (if startswith rel_path pre then Some domain else first_rule rules rel_path)"

definition get_domain :: "string \<Rightarrow> string option" where
  "get_domain rel_path = first_rule DOMAIN_RULES rel_path"

section \<open>Character classes\<close>

text \<open>
  \<^verbatim>\<open>\s\<close> of the \<^verbatim>\<open>re\<close> module on \<^verbatim>\<open>str\<close> patterns, which is \<^verbatim>\<open>str.isspace\<close> and what
  \<^verbatim>\<open>str.strip()\<close> removes: the code points 9-13, 28-32, 133 and 160.
\<close>

definition is_space :: "char \<Rightarrow> bool" where
  "is_space c =
     (let n = (of_char c :: nat)
      in (9 \<le> n \<and> n \<le> 13) \<or> (28 \<le> n \<and> n \<le> 32) \<or> n = 133 \<or> n = 160)"

text \<open>
  \<^verbatim>\<open>\w\<close> on \<^verbatim>\<open>str\<close> patterns: the alphanumeric code points and the underscore. Below 256
  these are the ASCII digits and letters, the underscore, and the Latin-1 letters and
  numeric characters.
\<close>

definition is_word :: "char \<Rightarrow> bool" where
  "is_word c =
     (let n = (of_char c :: nat)
      in (48 \<le> n \<and> n \<le> 57) \<or> (65 \<le> n \<and> n \<le> 90) \<or> n = 95 \<or> (97 \<le> n \<and> n \<le> 122)
         \<or> n = 170 \<or> n = 178 \<or> n = 179 \<or> n = 181 \<or> n = 185 \<or> n = 186
         \<or> (188 \<le> n \<and> n \<le> 190) \<or> (192 \<le> n \<and> n \<le> 214)
         \<or> (216 \<le> n \<and> n \<le> 246) \<or> (248 \<le> n \<and> n \<le> 255))"

text \<open>\<^verbatim>\<open>\d\<close> on \<^verbatim>\<open>str\<close> patterns: the decimal digits; below 256 the ASCII digits.\<close>

definition is_digit :: "char \<Rightarrow> bool" where
  "is_digit c = (let n = (of_char c :: nat) in 48 \<le> n \<and> n \<le> 57)"

definition is_octdigit :: "char \<Rightarrow> bool" where
  "is_octdigit c = (let n = (of_char c :: nat) in 48 \<le> n \<and> n \<le> 55)"

definition is_ascii_letter :: "char \<Rightarrow> bool" where
  "is_ascii_letter c =
     (let n = (of_char c :: nat) in (65 \<le> n \<and> n \<le> 90) \<or> (97 \<le> n \<and> n \<le> 122))"

definition digit_val :: "char \<Rightarrow> nat" where
  "digit_val c = of_char c - 48"

text \<open>\<^verbatim>\<open>int(ds)\<close> and \<^verbatim>\<open>int(ds, 8)\<close> of a string of digits.\<close>

definition int_of_digits :: "string \<Rightarrow> nat" where
  "int_of_digits ds = foldl (\<lambda>a c. 10 * a + digit_val c) 0 ds"

definition int_of_octdigits :: "string \<Rightarrow> nat" where
  "int_of_octdigits ds = foldl (\<lambda>a c. 8 * a + digit_val c) 0 ds"

section \<open>Searching and substituting with a pattern\<close>

text \<open>
  The scripts use \<^verbatim>\<open>re.search\<close>, \<^verbatim>\<open>re.match\<close> and \<^verbatim>\<open>re.sub\<close> with a handful of fixed
  patterns. A pattern is modelled by its matcher: given the character before the current
  position (\<open>None\<close> at the start of the text, for \<^verbatim>\<open>^\<close>, \<^verbatim>\<open>\b\<close> and look-behind) and
  the text from the current position on, it returns the length of the match there and
  the texts of its groups, or \<open>None\<close>. None of the scripts' patterns matches the empty
  string.
\<close>

type_synonym matcher = "char option \<Rightarrow> string \<Rightarrow> (nat \<times> string list) option"

text \<open>
  \<^verbatim>\<open>re.search\<close>: the first position, from left to right, where the pattern matches;
  the result is the matched text and the groups.
\<close>

fun search_from :: "matcher \<Rightarrow> char option \<Rightarrow> string \<Rightarrow> (string \<times> string list) option" where
  "search_from m prev [] = None"
| "search_from m prev (c # cs) =
     (case m prev (c # cs) of
        None \<Rightarrow> search_from m (Some c) cs
      | Some (n, gs) \<Rightarrow> Some (take n (c # cs), gs))"

definition re_search :: "matcher \<Rightarrow> string \<Rightarrow> (string \<times> string list) option" where
  "re_search m s = search_from m None s"

text \<open>
  \<^verbatim>\<open>re.sub\<close>: the matches are found from left to right and do not overlap; each is
  replaced, the text between them is kept. After a match the scan goes on at its end,
  and the character before that position is the last character of the match.
\<close>

function sub_from ::
  "matcher \<Rightarrow> (string \<Rightarrow> string list \<Rightarrow> string) \<Rightarrow> char option \<Rightarrow> string \<Rightarrow> string" where
  "sub_from m rep prev [] = []"
| "sub_from m rep prev (c # cs) =
     (case m prev (c # cs) of
        None \<Rightarrow> c # sub_from m rep (Some c) cs
      | Some (n, gs) \<Rightarrow>
          if 0 < n \<and> n \<le> length (c # cs)
          then rep (take n (c # cs)) gs
                 @ sub_from m rep (Some ((c # cs) ! (n - 1))) (drop n (c # cs))
          else c # sub_from m rep (Some c) cs)"
  by pat_completeness auto
termination
  by (relation "measure (\<lambda>(m, rep, prev, s). length s)") auto

text \<open>
  The replacement argument of \<^verbatim>\<open>re.sub\<close> is a template: \<^verbatim>\<open>re\<close> compiles it before it
  looks for a match (\<^verbatim>\<open>parse_template\<close> of the \<^verbatim>\<open>re\<close> module, Python 3.12), and a
  backslash in it starts an escape: \<^verbatim>\<open>\g<N>\<close> and \<^verbatim>\<open>\N\<close> refer to a group, \<^verbatim>\<open>\0\<close> and three
  octal digits give a character, \<^verbatim>\<open>\a \b \f \n \r \t \v \\\<close> give the control character
  or the backslash, a backslash before any other ASCII letter is an error, and before
  any other character it stays as it is. None of the scripts' patterns has a named group.
\<close>

datatype tpiece = Lit char | Group nat

datatype py_error =
    ValueError      \<comment> \<open>\<^verbatim>\<open>str.index\<close> without the substring, \<^verbatim>\<open>int\<close> of more than 4300 digits\<close>
  | TemplateError   \<comment> \<open>the exception \<^verbatim>\<open>re\<close> raises while it compiles a replacement template\<close>

definition lit :: "char \<Rightarrow> py_error + tpiece list \<Rightarrow> py_error + tpiece list" where
  "lit ch r = (case r of Inl e \<Rightarrow> Inl e | Inr ps \<Rightarrow> Inr (Lit ch # ps))"

definition groupref :: "nat \<Rightarrow> nat \<Rightarrow> py_error + tpiece list \<Rightarrow> py_error + tpiece list" where
  "groupref groups k r =
     (if groups < k then Inl TemplateError
      else case r of Inl e \<Rightarrow> Inl e | Inr ps \<Rightarrow> Inr (Group k # ps))"

fun template_escape :: "char \<Rightarrow> char option" where
  "template_escape e =
     (if e = CHR ''a'' then Some (CHR 0x07)
      else if e = CHR ''b'' then Some (CHR 0x08)
      else if e = CHR ''f'' then Some (CHR 0x0C)
      else if e = CHR ''n'' then Some NL
      else if e = CHR ''r'' then Some (CHR 0x0D)
      else if e = CHR ''t'' then Some (CHR 0x09)
      else if e = CHR ''v'' then Some (CHR 0x0B)
      else if e = BSLASH then Some BSLASH
      else None)"

function parse_template :: "nat \<Rightarrow> string \<Rightarrow> py_error + tpiece list" where
  "parse_template groups [] = Inr []"
| "parse_template groups (c # cs) =
     (if c \<noteq> BSLASH then lit c (parse_template groups cs)
      else case cs of
        [] \<Rightarrow> Inl TemplateError
      | e # r \<Rightarrow>
          if e = CHR ''g'' then
            (if \<not> startswith r ''<'' \<or> CHR ''>'' \<notin> set r then Inl TemplateError
             else if takeWhile (\<lambda>x. x \<noteq> CHR ''>'') (tl r) = []
                     \<or> \<not> list_all is_digit (takeWhile (\<lambda>x. x \<noteq> CHR ''>'') (tl r))
                     \<or> 4300 < length (takeWhile (\<lambda>x. x \<noteq> CHR ''>'') (tl r))
                  then Inl TemplateError
             else groupref groups (int_of_digits (takeWhile (\<lambda>x. x \<noteq> CHR ''>'') (tl r)))
                    (parse_template groups (tl (dropWhile (\<lambda>x. x \<noteq> CHR ''>'') r))))
          else if e = CHR ''0'' then
            lit (char_of (int_of_octdigits (takeWhile is_octdigit (take 2 r)) mod 256))
              (parse_template groups (drop (length (takeWhile is_octdigit (take 2 r))) r))
          else if is_digit e then
            (if r \<noteq> [] \<and> is_digit (hd r) then
               (if is_octdigit e \<and> is_octdigit (hd r) \<and> tl r \<noteq> [] \<and> is_octdigit (hd (tl r))
                then (if 255 < int_of_octdigits [e, hd r, hd (tl r)] then Inl TemplateError
                      else lit (char_of (int_of_octdigits [e, hd r, hd (tl r)]))
                             (parse_template groups (tl (tl r))))
                else groupref groups (int_of_digits [e, hd r]) (parse_template groups (tl r)))
             else groupref groups (digit_val e) (parse_template groups r))
          else
            (case template_escape e of
               Some ch \<Rightarrow> lit ch (parse_template groups r)
             | None \<Rightarrow>
                 if is_ascii_letter e then Inl TemplateError
                 else lit BSLASH (lit e (parse_template groups r))))"
  by pat_completeness auto
termination
proof (relation "measure (\<lambda>(groups, s). length s)")
  fix cs :: string and e :: char and r :: string
  assume "cs = e # r"
  have "length (tl (dropWhile (\<lambda>x. x \<noteq> CHR ''>'') r)) \<le> length r"
    by (metis diff_le_self length_dropWhile_le length_tl order_trans)
  then show "((groups, tl (dropWhile (\<lambda>x. x \<noteq> CHR ''>'') r)), groups, c # cs)
      \<in> measure (\<lambda>(groups, s). length s)" for groups :: nat and c :: char
    using \<open>cs = e # r\<close> by simp
qed auto

text \<open>The text a compiled template gives for one match (\<open>w\<close>) with its groups.\<close>

fun expand :: "tpiece list \<Rightarrow> string \<Rightarrow> string list \<Rightarrow> string" where
  "expand [] w gs = []"
| "expand (Lit ch # ps) w gs = ch # expand ps w gs"
| "expand (Group k # ps) w gs =
     (if k = 0 then w else if k - 1 < length gs then gs ! (k - 1) else []) @ expand ps w gs"

text \<open>\<^verbatim>\<open>pattern.sub(repl, string)\<close>, for a pattern with \<open>groups\<close> groups.\<close>

definition re_sub :: "matcher \<Rightarrow> nat \<Rightarrow> string \<Rightarrow> string \<Rightarrow> py_error + string" where
  "re_sub m groups repl s =
     (case parse_template groups repl of
        Inl e \<Rightarrow> Inl e
      | Inr ps \<Rightarrow> Inr (sub_from m (expand ps) None s))"

section \<open>The call rewriter (gettext_split.py)\<close>

text \<open>The look-behind \<^verbatim>\<open>(?<![d\w])\<close>: the character before is neither d nor a word character.\<close>

definition not_after_d_or_word :: "char option \<Rightarrow> bool" where
  "not_after_d_or_word prev =
     (case prev of None \<Rightarrow> True | Some p \<Rightarrow> \<not> (p = CHR ''d'' \<or> is_word p))"

text \<open>\<^verbatim>\<open>\b\<close> before a word character: the character before is no word character.\<close>

definition word_start :: "char option \<Rightarrow> bool" where
  "word_start prev = (case prev of None \<Rightarrow> True | Some p \<Rightarrow> \<not> is_word p)"

text \<open>\<^verbatim>\<open>RE_GETTEXT = re.compile(r'(?<![d\w])gettext\(')\<close>\<close>

definition RE_GETTEXT :: matcher where
  "RE_GETTEXT prev s =
     (if not_after_d_or_word prev \<and> startswith s ''gettext('' then Some (8, []) else None)"

text \<open>\<^verbatim>\<open>RE_NGETTEXT = re.compile(r'(?<![d\w])ngettext\(')\<close>\<close>

definition RE_NGETTEXT :: matcher where
  "RE_NGETTEXT prev s =
     (if not_after_d_or_word prev \<and> startswith s ''ngettext('' then Some (9, []) else None)"

text \<open>
  The shape of the two module forms, \<^verbatim>\<open>\bNAME\(\s*StoryarnWeb\.Gettext,\s*\<close>: the name
  with its parenthesis, white space (greedy), the handle with its comma, white space
  (greedy). The match ends where the second run of white space ends.
\<close>

definition mod_form :: "string \<Rightarrow> matcher" where
  "mod_form name prev s =
     (if word_start prev \<and> startswith s name
         \<and> startswith (dropWhile is_space (drop (length name) s)) ''StoryarnWeb.Gettext,''
      then Some (length s
                   - length (dropWhile is_space
                       (drop 20 (dropWhile is_space (drop (length name) s)))), [])
      else None)"

text \<open>\<^verbatim>\<open>RE_MOD_GETTEXT = re.compile(r'\bGettext\.gettext\(\s*StoryarnWeb\.Gettext,\s*', re.DOTALL)\<close>\<close>

definition RE_MOD_GETTEXT :: matcher where
  "RE_MOD_GETTEXT = mod_form ''Gettext.gettext(''"

text \<open>\<^verbatim>\<open>RE_MOD_NGETTEXT = re.compile(r'\bGettext\.ngettext\(\s*StoryarnWeb\.Gettext,\s*', re.DOTALL)\<close>\<close>

definition RE_MOD_NGETTEXT :: matcher where
  "RE_MOD_NGETTEXT = mod_form ''Gettext.ngettext(''"

text \<open>
  \<^verbatim>\<open>transform_content(content, domain)\<close>: the four substitutions, forms C, D, A, B in
  this order, the replacements being the f-strings with the domain in them.
\<close>

definition transform_content :: "string \<Rightarrow> string \<Rightarrow> py_error + string" where
  \<open>transform_content content domain =
     (case re_sub RE_MOD_GETTEXT 0
             (''Gettext.dgettext(StoryarnWeb.Gettext, "'' @ domain @ ''", '') content of
        Inl e \<Rightarrow> Inl e
      | Inr c1 \<Rightarrow>
     (case re_sub RE_MOD_NGETTEXT 0
             (''Gettext.dngettext(StoryarnWeb.Gettext, "'' @ domain @ ''", '') c1 of
        Inl e \<Rightarrow> Inl e
      | Inr c2 \<Rightarrow>
     (case re_sub RE_GETTEXT 0 (''dgettext("'' @ domain @ ''", '') c2 of
        Inl e \<Rightarrow> Inl e
      | Inr c3 \<Rightarrow> re_sub RE_NGETTEXT 0 (''dngettext("'' @ domain @ ''", '') c3)))\<close>

section \<open>Translation tables\<close>

text \<open>
  The key of an entry is a string (\<^verbatim>\<open>msgid\<close>) or a pair (\<^verbatim>\<open>(msgid, msgid_plural)\<close>); a table
  is a Python \<^verbatim>\<open>dict\<close> from keys to strings, modelled as an association list in insertion
  order with \<open>map_of\<close> as the lookup and \<open>AList.update\<close> as the assignment
  \<^verbatim>\<open>d[k] = v\<close> (a key that is there keeps its place, a new key goes to the end).
\<close>

datatype po_key = Simple string | Plural string string

type_synonym po_table = "(po_key \<times> string) list"

text \<open>\<^verbatim>\<open>d.get(k, default)\<close>\<close>

definition dict_get :: "('k \<times> 'v) list \<Rightarrow> 'k \<Rightarrow> 'v \<Rightarrow> 'v" where
  "dict_get d k dflt = (case map_of d k of None \<Rightarrow> dflt | Some v \<Rightarrow> v)"

section \<open>Filling a block (migrate_translations.py)\<close>

text \<open>\<^verbatim>\<open>s.strip()\<close> and \<^verbatim>\<open>sub in s\<close>.\<close>

definition str_strip :: "string \<Rightarrow> string" where
  "str_strip s = rev (dropWhile is_space (rev (dropWhile is_space s)))"

fun str_contains :: "string \<Rightarrow> string \<Rightarrow> bool" where
  "str_contains [] sub = (sub = [])"
| "str_contains (c # cs) sub = (startswith (c # cs) sub \<or> str_contains cs sub)"

text \<open>
  With \<^verbatim>\<open>re.MULTILINE\<close>, \<^verbatim>\<open>^\<close> matches at the start of the text and after a newline,
  \<^verbatim>\<open>$\<close> at the end of the text and before a newline.
\<close>

definition line_start :: "char option \<Rightarrow> bool" where
  "line_start prev = (case prev of None \<Rightarrow> True | Some p \<Rightarrow> p = NL)"

definition line_end :: "string \<Rightarrow> bool" where
  "line_end s = (case s of [] \<Rightarrow> True | c # _ \<Rightarrow> c = NL)"

text \<open>
  \<^verbatim>\<open>((?:[^"\\]|\\.)*)"\<close> read from just after the opening quote: characters other than
  quote and backslash, and backslash followed by any character but a newline, up to the
  first quote that is not part of such a pair. The result is the text of the group; the
  match fails when the text ends, or a backslash stands before a newline or at the end,
  before a closing quote is found. (The two alternatives exclude each other on their
  first character, so backtracking finds no other match.)
\<close>

fun quoted_body :: "string \<Rightarrow> string option" where
  "quoted_body [] = None"
| "quoted_body (c # cs) =
     (if c = QUOTE then Some []
      else if c = BSLASH then
        (case cs of
           [] \<Rightarrow> None
         | e # r \<Rightarrow> if e = NL then None else map_option (\<lambda>g. c # e # g) (quoted_body r))
      else map_option (\<lambda>g. c # g) (quoted_body cs))"

text \<open>
  \<^verbatim>\<open>^KEYWORD\s+"((?:[^"\\]|\\.)*)"\<close> with \<^verbatim>\<open>re.MULTILINE\<close>: the keyword at the start of a
  line, white space (at least one character, greedy), the quoted string. Group 1 is the
  text between the quotes.
\<close>

definition key_decl :: "string \<Rightarrow> matcher" where
  "key_decl keyword prev s =
     (if line_start prev \<and> startswith s keyword
         \<and> takeWhile is_space (drop (length keyword) s) \<noteq> []
         \<and> startswith (dropWhile is_space (drop (length keyword) s)) [QUOTE]
      then (case quoted_body (tl (dropWhile is_space (drop (length keyword) s))) of
              None \<Rightarrow> None
            | Some g \<Rightarrow>
                Some (length keyword + length (takeWhile is_space (drop (length keyword) s))
                        + 1 + length g + 1, [g]))
      else None)"

text \<open>
  \<^verbatim>\<open>^LINE$\<close> with \<^verbatim>\<open>re.MULTILINE\<close>, for a fixed text without a newline: a whole line
  that is exactly this text. \<open>gs\<close> are the groups the pattern captures.
\<close>

definition exact_line :: "string \<Rightarrow> string list \<Rightarrow> matcher" where
  "exact_line line gs prev s =
     (if line_start prev \<and> startswith s line \<and> line_end (drop (length line) s)
      then Some (length line, gs) else None)"

text \<open>\<^verbatim>\<open>m.group(1)\<close> of a match with one group.\<close>

definition group1 :: "string list \<Rightarrow> string" where
  "group1 gs = (case gs of [] \<Rightarrow> [] | g # _ \<Rightarrow> g)"

text \<open>
  \<^verbatim>\<open>_fill_block(block, translations)\<close>, returning \<^verbatim>\<open>(new_block, filled, total)\<close>. The
  patterns are \<^verbatim>\<open>^msgid\s+"((?:[^"\\]|\\.)*)"\<close>, \<^verbatim>\<open>^msgid_plural\s+"((?:[^"\\]|\\.)*)"\<close>,
  \<^verbatim>\<open>^msgstr\[0\] ""$\<close>, \<^verbatim>\<open>^(msgstr\[0\] )""$\<close> (one group) and \<^verbatim>\<open>^msgstr ""$\<close>; the
  replacements are \<^verbatim>\<open>f'\\1"{escaped}"'\<close>, that is backslash, 1, quote, the escaped
  translation, quote, and \<^verbatim>\<open>f'msgstr "{escaped}"'\<close>. The loop over \<^verbatim>\<open>re.findall\<close> in the
  source has the body \<^verbatim>\<open>pass\<close> and \<^verbatim>\<open>full_msgid\<close> is never read.
\<close>

definition fill_block :: "string \<Rightarrow> po_table \<Rightarrow> py_error + (string \<times> nat \<times> nat)" where
  \<open>fill_block block translations =
     (if str_strip block = [] \<or> \<not> str_contains block ''msgid'' then Inr (block, 0, 0)
      else case re_search (key_decl ''msgid'') block of
        None \<Rightarrow> Inr (block, 0, 0)
      | Some (w, gs) \<Rightarrow>
          if unescape (group1 gs) = [] then Inr (block, 0, 0)
          else
            (case re_search (key_decl ''msgid_plural'') block of
               Some (w', gs') \<Rightarrow>
                 if re_search (exact_line ''msgstr[0] ""'' []) block \<noteq> None
                    \<and> dict_get translations
                         (Plural (unescape (group1 gs)) (unescape (group1 gs'))) [] \<noteq> []
                 then
                   (case re_sub (exact_line ''msgstr[0] ""'' [''msgstr[0] '']) 1
                           ([BSLASH, CHR ''1'', QUOTE]
                              @ escape (dict_get translations
                                  (Plural (unescape (group1 gs)) (unescape (group1 gs'))) [])
                              @ [QUOTE])
                           block of
                      Inl e \<Rightarrow> Inl e
                    | Inr new_block \<Rightarrow> Inr (new_block, 1, 1))
                 else Inr (block, 0, 1)
             | None \<Rightarrow>
                 if re_search (exact_line ''msgstr ""'' []) block \<noteq> None
                    \<and> dict_get translations (Simple (unescape (group1 gs))) [] \<noteq> []
                 then
                   (case re_sub (exact_line ''msgstr ""'' []) 0
                           (''msgstr "''
                              @ escape (dict_get translations (Simple (unescape (group1 gs))) [])
                              @ [QUOTE])
                           block of
                      Inl e \<Rightarrow> Inl e
                    | Inr new_block \<Rightarrow> Inr (new_block, 1, 1))
                 else Inr (block, 0, 1)))\<close>

section \<open>Parsing a translation file (migrate_translations.py, verify_translations.py)\<close>

text \<open>
  \<^verbatim>\<open>re.split(r'\n\n+', text)\<close>: the text between the runs of two or more newlines (each run
  is one separator, the pattern being greedy); the texts before the first and after the
  last run are part of the result also when they are empty.
\<close>

function split_blocks_from :: "string \<Rightarrow> string \<Rightarrow> string list" where
  "split_blocks_from acc [] = [rev acc]"
| "split_blocks_from acc (c # cs) =
     (if c = NL \<and> startswith cs [NL]
      then rev acc # split_blocks_from [] (dropWhile (\<lambda>x. x = NL) cs)
      else split_blocks_from (c # acc) cs)"
  by pat_completeness auto
termination
  by (relation "measure (\<lambda>(acc, s). length s)")
    (auto simp: less_Suc_eq_le length_dropWhile_le)

definition split_blocks :: "string \<Rightarrow> string list" where
  "split_blocks s = split_blocks_from [] s"

text \<open>
  \<^verbatim>\<open>s.splitlines()\<close>: the lines without their line breaks. The line breaks below 256 are
  the code points 10-13, 28-30 and 133; carriage return followed by newline is one break.
  A break at the very end opens no further line.
\<close>

definition is_linebreak :: "char \<Rightarrow> bool" where
  "is_linebreak c =
     (let n = (of_char c :: nat) in (10 \<le> n \<and> n \<le> 13) \<or> (28 \<le> n \<and> n \<le> 30) \<or> n = 133)"

function splitlines_from :: "string \<Rightarrow> string \<Rightarrow> string list" where
  "splitlines_from acc [] = (if acc = [] then [] else [rev acc])"
| "splitlines_from acc (c # cs) =
     (if is_linebreak c
      then rev acc # splitlines_from [] (if c = CHR 0x0D \<and> startswith cs [NL] then tl cs else cs)
      else splitlines_from (c # acc) cs)"
  by pat_completeness auto
termination
  by (relation "measure (\<lambda>(acc, s). length s)") auto

definition splitlines :: "string \<Rightarrow> string list" where
  "splitlines s = splitlines_from [] s"

text \<open>
  The continuation lines of a declaration: \<^verbatim>\<open>while j < len(lines) and
  lines[j].startswith('"'): val += lines[j][1:-1]; j += 1\<close>. \<open>rest\<close> are the lines after
  the declaration's line; \<^verbatim>\<open>l[1:-1]\<close> is \<open>butlast (tl l)\<close>.
\<close>

definition continuation :: "string list \<Rightarrow> string" where
  "continuation rest =
     concat (map (\<lambda>l. butlast (tl l)) (takeWhile (\<lambda>l. startswith l [QUOTE]) rest))"

definition after_continuation :: "string list \<Rightarrow> string list" where
  "after_continuation rest = dropWhile (\<lambda>l. startswith l [QUOTE]) rest"

text \<open>
  \<^verbatim>\<open>_read_string(lines, i)\<close> of migrate_translations.py, for \<^verbatim>\<open>line = lines[i]\<close> and
  \<^verbatim>\<open>rest = lines[i+1:]\<close>. \<^verbatim>\<open>line.index('"')\<close> raises \<^verbatim>\<open>ValueError\<close> when the line has no
  quote; \<^verbatim>\<open>line[first_quote + 1 : -1]\<close> is the text after the first quote without its
  last character.
\<close>

definition read_string :: "string \<Rightarrow> string list \<Rightarrow> py_error + string" where
  "read_string line rest =
     (if QUOTE \<notin> set line then Inl ValueError
      else Inr (unescape (butlast (tl (dropWhile (\<lambda>x. x \<noteq> QUOTE) line)) @ continuation rest)))"

text \<open>\<^verbatim>\<open>_skip_string(lines, i)\<close>: the lines from the index it returns on.\<close>

definition skip_string :: "string list \<Rightarrow> string list" where
  "skip_string rest = after_continuation rest"

text \<open>
  \<^verbatim>\<open>_read_str(lines, i)\<close> of verify_translations.py: the string and the lines from the
  returned index on.
\<close>

definition read_str :: "string \<Rightarrow> string list \<Rightarrow> py_error + (string \<times> string list)" where
  "read_str line rest =
     (if QUOTE \<notin> set line then Inl ValueError
      else Inr (unescape (butlast (tl (dropWhile (\<lambda>x. x \<noteq> QUOTE) line)) @ continuation rest),
                after_continuation rest))"

text \<open>
  \<^verbatim>\<open>re.match(r'msgstr\[(\d+)\]\s+"(.*)"', line)\<close>: at the start of the line \<^verbatim>\<open>msgstr[\<close>,
  digits, \<^verbatim>\<open>]\<close>, white space, a quote, and then (the dot matching no newline, the star
  being greedy) everything up to the last quote before the end or the first newline. The
  result is the text of the two groups.
\<close>

definition msgstr_indexed :: "string \<Rightarrow> (string \<times> string) option" where
  "msgstr_indexed line =
     (let r = drop 7 line;
          ds = takeWhile is_digit r;
          r1 = dropWhile is_digit r;
          ws = takeWhile is_space (tl r1);
          r2 = dropWhile is_space (tl r1);
          body = takeWhile (\<lambda>x. x \<noteq> NL) (tl r2)
      in if startswith line ''msgstr['' \<and> ds \<noteq> [] \<and> startswith r1 '']'' \<and> ws \<noteq> []
            \<and> startswith r2 [QUOTE] \<and> QUOTE \<in> set body
         then Some (ds, rev (tl (dropWhile (\<lambda>x. x \<noteq> QUOTE) (rev body))))
         else None)"

text \<open>The variables of the loop over the lines of a block.\<close>

record scan_state =
  msgid :: "string option"
  msgid_plural :: "string option"
  msgstr :: "string option"
  msgstr_plural :: "nat \<rightharpoonup> string"

definition scan_init :: scan_state where
  "scan_init = \<lparr>msgid = None, msgid_plural = None, msgstr = None, msgstr_plural = Map.empty\<rparr>"

text \<open>
  The \<^verbatim>\<open>while i < len(lines)\<close> loop of \<^verbatim>\<open>parse_po\<close> (migrate_translations.py), on the lines
  from index \<^verbatim>\<open>i\<close> on. \<^verbatim>\<open>int(m.group(1))\<close> raises \<^verbatim>\<open>ValueError\<close> for more than 4300
  digits.
\<close>

function scan_po :: "scan_state \<Rightarrow> string list \<Rightarrow> py_error + scan_state" where
  "scan_po st [] = Inr st"
| "scan_po st (line # rest) =
     (if startswith line ''msgid '' then
        (case read_string line rest of
           Inl e \<Rightarrow> Inl e
         | Inr v \<Rightarrow> scan_po (st\<lparr>msgid := Some v\<rparr>) (skip_string rest))
      else if startswith line ''msgid_plural '' then
        (case read_string line rest of
           Inl e \<Rightarrow> Inl e
         | Inr v \<Rightarrow> scan_po (st\<lparr>msgid_plural := Some v\<rparr>) (skip_string rest))
      else if startswith line (''msgstr '' @ [QUOTE]) then
        (case read_string line rest of
           Inl e \<Rightarrow> Inl e
         | Inr v \<Rightarrow> scan_po (st\<lparr>msgstr := Some v\<rparr>) (skip_string rest))
      else
        (case msgstr_indexed line of
           Some (ds, val) \<Rightarrow>
             if 4300 < length ds then Inl ValueError
             else scan_po
                    (st\<lparr>msgstr_plural :=
                         (msgstr_plural st)(int_of_digits ds \<mapsto> unescape (val @ continuation rest))\<rparr>)
                    (after_continuation rest)
         | None \<Rightarrow> scan_po st rest))"
  by pat_completeness auto
termination
  by (relation "measure (\<lambda>(st, ls). length ls)")
    (auto simp: skip_string_def after_continuation_def less_Suc_eq_le length_dropWhile_le)

text \<open>
  The same loop in \<^verbatim>\<open>parse_po_entries\<close> (verify_translations.py), with
  \<^verbatim>\<open>msgid, i = _read_str(lines, i)\<close>.
\<close>

function scan_po_entries :: "scan_state \<Rightarrow> string list \<Rightarrow> py_error + scan_state" where
  "scan_po_entries st [] = Inr st"
| "scan_po_entries st (line # rest) =
     (if startswith line ''msgid '' then
        (case read_str line rest of
           Inl e \<Rightarrow> Inl e
         | Inr x \<Rightarrow> scan_po_entries (st\<lparr>msgid := Some (fst x)\<rparr>) (snd x))
      else if startswith line ''msgid_plural '' then
        (case read_str line rest of
           Inl e \<Rightarrow> Inl e
         | Inr x \<Rightarrow> scan_po_entries (st\<lparr>msgid_plural := Some (fst x)\<rparr>) (snd x))
      else if startswith line (''msgstr '' @ [QUOTE]) then
        (case read_str line rest of
           Inl e \<Rightarrow> Inl e
         | Inr x \<Rightarrow> scan_po_entries (st\<lparr>msgstr := Some (fst x)\<rparr>) (snd x))
      else
        (case msgstr_indexed line of
           Some (ds, val) \<Rightarrow>
             if 4300 < length ds then Inl ValueError
             else scan_po_entries
                    (st\<lparr>msgstr_plural :=
                         (msgstr_plural st)(int_of_digits ds \<mapsto> unescape (val @ continuation rest))\<rparr>)
                    (after_continuation rest)
         | None \<Rightarrow> scan_po_entries st rest))"
  by pat_completeness auto
termination
  by (relation "measure (\<lambda>(st, ls). length ls)")
    (auto simp: read_str_def after_continuation_def less_Suc_eq_le length_dropWhile_le
          split: if_splits)

text \<open>
  The end of the loop body over the blocks: nothing is stored for a block without
  \<^verbatim>\<open>msgid\<close> or with the empty \<^verbatim>\<open>msgid\<close> (the header); a block with \<^verbatim>\<open>msgid_plural\<close> is
  stored under the pair with \<^verbatim>\<open>msgstr_plural.get(0, "")\<close>, any other block with a
  \<^verbatim>\<open>msgstr\<close> under its \<^verbatim>\<open>msgid\<close>.
\<close>

definition store_entry :: "scan_state \<Rightarrow> po_table \<Rightarrow> po_table" where
  "store_entry st table =
     (case msgid st of
        None \<Rightarrow> table
      | Some k \<Rightarrow>
          if k = [] then table
          else
            (case msgid_plural st of
               Some p \<Rightarrow>
                 AList.update (Plural k p)
                   (case msgstr_plural st 0 of None \<Rightarrow> [] | Some v \<Rightarrow> v) table
             | None \<Rightarrow>
                 (case msgstr st of
                    Some v \<Rightarrow> AList.update (Simple k) v table
                  | None \<Rightarrow> table)))"

text \<open>
  \<^verbatim>\<open>for block in blocks\<close> of \<^verbatim>\<open>parse_po\<close>, with \<^verbatim>\<open>lines = block.strip().splitlines()\<close>;
  an exception in a block ends the function.
\<close>

fun parse_po_blocks :: "po_table \<Rightarrow> string list \<Rightarrow> py_error + po_table" where
  "parse_po_blocks table [] = Inr table"
| "parse_po_blocks table (block # blocks) =
     (case scan_po scan_init (splitlines (str_strip block)) of
        Inl e \<Rightarrow> Inl e
      | Inr st \<Rightarrow> parse_po_blocks (store_entry st table) blocks)"

text \<open>\<^verbatim>\<open>parse_po(path)\<close>, given the content of the file.\<close>

definition parse_po :: "string \<Rightarrow> py_error + po_table" where
  "parse_po content = parse_po_blocks [] (split_blocks (str_strip content))"

fun parse_po_entries_blocks :: "po_table \<Rightarrow> string list \<Rightarrow> py_error + po_table" where
  "parse_po_entries_blocks table [] = Inr table"
| "parse_po_entries_blocks table (block # blocks) =
     (case scan_po_entries scan_init (splitlines (str_strip block)) of
        Inl e \<Rightarrow> Inl e
      | Inr st \<Rightarrow> parse_po_entries_blocks (store_entry st table) blocks)"

text \<open>\<^verbatim>\<open>parse_po_entries(path)\<close> of verify_translations.py, given the content of the file.\<close>

definition parse_po_entries :: "string \<Rightarrow> py_error + po_table" where
  "parse_po_entries content = parse_po_entries_blocks [] (split_blocks (str_strip content))"

section \<open>The verifier (verify_translations.py)\<close>

text \<open>\<^verbatim>\<open>s.endswith(suffix)\<close>\<close>

definition endswith :: "string \<Rightarrow> string \<Rightarrow> bool" where
  "endswith s suffix = startswith (rev s) (rev suffix)"

text \<open>
  The files of the locale directory are given as the list of their names and contents,
  in the order of \<^verbatim>\<open>os.listdir\<close>. \<^verbatim>\<open>po_files = sorted(f for f in os.listdir(es_dir) if
  f.endswith(".po") and not f.endswith(".bak"))\<close>; Python compares strings code point by
  code point, as the lexicographic order on \<^typ>\<open>string\<close> does.
\<close>

definition po_files :: "(string \<times> string) list \<Rightarrow> (string \<times> string) list" where
  "po_files listing =
     sort_key fst (filter (\<lambda>(f, content). endswith f ''.po'' \<and> \<not> endswith f ''.bak'') listing)"

text \<open>
  \<^verbatim>\<open>for key, val in entries.items(): all_present.add(key); if val and key not in
  all_translated: all_translated[key] = val\<close>
\<close>

fun merge_entries :: "po_table \<Rightarrow> po_table \<times> po_key set \<Rightarrow> po_table \<times> po_key set" where
  "merge_entries [] (all_translated, all_present) = (all_translated, all_present)"
| "merge_entries ((key, val) # entries) (all_translated, all_present) =
     merge_entries entries
       (if val \<noteq> [] \<and> map_of all_translated key = None
        then AList.update key val all_translated else all_translated,
        insert key all_present)"

text \<open>
  \<^verbatim>\<open>for po_file in po_files: entries = parse_po_entries(path); ...\<close>; the
  \<^verbatim>\<open>per_file_stats\<close> are only printed. An exception in a file ends the run.
\<close>

fun merge_files ::
  "(string \<times> string) list \<Rightarrow> po_table \<times> po_key set \<Rightarrow> py_error + (po_table \<times> po_key set)" where
  "merge_files [] agg = Inr agg"
| "merge_files ((po_file, content) # files) agg =
     (case parse_po_entries content of
        Inl e \<Rightarrow> Inl e
      | Inr entries \<Rightarrow> merge_files files (merge_entries entries agg))"

text \<open>
  \<^verbatim>\<open>main()\<close>: \<open>backup\<close> is the content of \<^verbatim>\<open>default.po.bak\<close>, \<open>None\<close> when the file is not
  there. The result is the exit code of the process (\<^verbatim>\<open>sys.exit(1)\<close>, or 0 when \<^verbatim>\<open>main\<close>
  returns), or the exception that ends it. \<^verbatim>\<open>not all_translated.get(k)\<close> holds when the
  key is absent or its value is empty.
\<close>

definition verifier_main :: "string option \<Rightarrow> (string \<times> string) list \<Rightarrow> py_error + nat" where
  "verifier_main backup_file listing =
     (case backup_file of
        None \<Rightarrow> Inr 1
      | Some text \<Rightarrow>
          (case parse_po_entries text of
             Inl e \<Rightarrow> Inl e
           | Inr backup \<Rightarrow>
               (case merge_files (po_files listing) ([], {}) of
                  Inl e \<Rightarrow> Inl e
                | Inr (all_translated, all_present) \<Rightarrow>
                    (let missing_from_any = filter (\<lambda>k. k \<notin> all_present) (map fst backup);
                         backup_translated = filter (\<lambda>(k, v). v \<noteq> []) backup;
                         lost_translations =
                           filter (\<lambda>k. case map_of all_translated k of
                                          None \<Rightarrow> True | Some v \<Rightarrow> v = [])
                             (map fst backup_translated)
                     in Inr (if missing_from_any \<noteq> [] \<or> lost_translations \<noteq> []
                             then 1 else 0)))))"

section \<open>Auxiliary definitions for the proofs\<close>

text \<open>What \<open>escape\<close> writes for one character, and what is left of it after the first
  and the second pass of \<open>unescape\<close>.\<close>

definition esc_char :: "char \<Rightarrow> string" where
  "esc_char c =
     (if c = BSLASH then [BSLASH, BSLASH]
      else if c = QUOTE then [BSLASH, QUOTE]
      else if c = NL then [BSLASH, CHR ''n'']
      else [c])"

definition esc_char1 :: "char \<Rightarrow> string" where
  "esc_char1 c =
     (if c = BSLASH then [BSLASH, BSLASH] else if c = QUOTE then [BSLASH, QUOTE] else [c])"

definition esc_char2 :: "char \<Rightarrow> string" where
  "esc_char2 c = (if c = BSLASH then [BSLASH, BSLASH] else [c])"

text \<open>The pattern matches nowhere in the text (\<open>prev\<close> is the character before it).\<close>

fun nomatch :: "matcher \<Rightarrow> char option \<Rightarrow> string \<Rightarrow> bool" where
  "nomatch m prev [] = True"
| "nomatch m prev (c # cs) = (m prev (c # cs) = None \<and> nomatch m (Some c) cs)"

text \<open>The shape of the two bare forms, \<^verbatim>\<open>(?<![d\w])NAME\(\<close>.\<close>

definition bare :: "string \<Rightarrow> matcher" where
  "bare P prev s =
     (if not_after_d_or_word prev \<and> startswith s P then Some (length P, []) else None)"

text \<open>A substitution whose replacement has no escape and no group reference.\<close>

definition form_sub :: "matcher \<Rightarrow> string \<Rightarrow> char option \<Rightarrow> string \<Rightarrow> string" where
  "form_sub m repl prev s = sub_from m (\<lambda>w gs. repl) prev s"

text \<open>The lines of a text, separated by newlines (\<^verbatim>\<open>s.split('\n')\<close>), and the text of lines.\<close>

fun split_nl :: "string \<Rightarrow> string list" where
  "split_nl [] = [[]]"
| "split_nl (c # cs) =
     (if c = NL then [] # split_nl cs
      else case split_nl cs of [] \<Rightarrow> [[c]] | l # ls \<Rightarrow> (c # l) # ls)"

fun join_nl :: "string list \<Rightarrow> string" where
  "join_nl [] = []"
| "join_nl [l] = l"
| "join_nl (l # l' # ls) = l @ NL # join_nl (l' # ls)"

text \<open>
  The key under which \<open>fill_block\<close> looks a block up: the first match of the \<^verbatim>\<open>msgid\<close>
  pattern, with the first match of the \<^verbatim>\<open>msgid_plural\<close> pattern when there is one.
\<close>

definition fill_key :: "string \<Rightarrow> po_key option" where
  "fill_key block =
     (case re_search (key_decl ''msgid'') block of
        None \<Rightarrow> None
      | Some (w, gs) \<Rightarrow>
          (case re_search (key_decl ''msgid_plural'') block of
             Some (w', gs') \<Rightarrow> Some (Plural (unescape (group1 gs)) (unescape (group1 gs')))
           | None \<Rightarrow> Some (Simple (unescape (group1 gs)))))"

text \<open>A text with a backslash before every quote, and nothing else escaped.\<close>

definition quote_only :: "string \<Rightarrow> string" where
  "quote_only t = concat (map (\<lambda>c. if c = QUOTE then [BSLASH, QUOTE] else [c]) t)"



definition fill_msgid :: "string \<Rightarrow> string option" where
  "fill_msgid block =
     (case re_search (key_decl ''msgid'') block of
        None \<Rightarrow> None | Some (w, gs) \<Rightarrow> Some (unescape (group1 gs)))"


text \<open>The table has a non-empty value under the key.\<close>

definition has_translation :: "po_table \<Rightarrow> po_key \<Rightarrow> bool" where
  "has_translation t k = (case map_of t k of None \<Rightarrow> False | Some v \<Rightarrow> v \<noteq> [])"

text \<open>
  The two defect sets in the words of the specification: \<open>missing\<close>, the keys of the backup
  that are in no current file's table; \<open>lost\<close>, the keys of the backup with a non-empty
  value there for which no current file's table has a non-empty value.
\<close>

definition missing_keys :: "po_table \<Rightarrow> po_table list \<Rightarrow> po_key set" where
  "missing_keys backup tables =
     Set.filter (\<lambda>k. \<forall>t\<in>set tables. map_of t k = None) (fst ` set backup)"

definition lost_keys :: "po_table \<Rightarrow> po_table list \<Rightarrow> po_key set" where
  "lost_keys backup tables =
     Set.filter (\<lambda>k. has_translation backup k \<and> (\<forall>t\<in>set tables. \<not> has_translation t k))
       (fst ` set backup)"

text \<open>The inner loops of the verifier over tables that are parsed already.\<close>

fun merge_tables :: "po_table list \<Rightarrow> po_table \<times> po_key set \<Rightarrow> po_table \<times> po_key set" where
  "merge_tables [] agg = agg"
| "merge_tables (t # ts) agg = merge_tables ts (merge_entries t agg)"

text \<open>The number of places where a backslash is immediately followed by the letter n.\<close>

fun backslash_n_count :: "string \<Rightarrow> nat" where
  "backslash_n_count (a # b # r) =
     (if a = BSLASH \<and> b = CHR ''n'' then 1 else 0) + backslash_n_count (b # r)"
| "backslash_n_count _ = 0"




section \<open>Escaping: lemmas\<close>

lemma replace_from_single:
  "replace_from [a] new s = concat (map (\<lambda>c. if c = a then new else [c]) s)"
  by (induction s) (auto simp: startswith_def replace_from.simps(2))

lemma str_replace_single:
  "str_replace [a] new s = concat (map (\<lambda>c. if c = a then new else [c]) s)"
  by (simp add: str_replace_def replace_from_single)

lemma replace_from_pair_other:
  "c \<noteq> a \<Longrightarrow> replace_from [a, b] new (c # cs) = c # replace_from [a, b] new cs"
  by (simp add: startswith_def replace_from.simps(2))

lemma replace_from_pair_hit:
  "replace_from [a, b] new (a # b # ds) = new @ replace_from [a, b] new ds"
  by (simp add: startswith_def replace_from.simps(2))

lemma replace_from_pair_miss:
  "d \<noteq> b \<Longrightarrow> replace_from [a, b] new (a # d # ds) = a # replace_from [a, b] new (d # ds)"
  by (simp add: startswith_def replace_from.simps(2))

lemma replace_from_pair_one:
  "replace_from [a, b] new [c] = [c]"
  by (simp add: startswith_def replace_from.simps(2))

lemmas replace_from_pair =
  replace_from_pair_other replace_from_pair_hit replace_from_pair_miss replace_from_pair_one

lemma escape_concat: "escape s = concat (map esc_char s)"
proof (induction s)
  case Nil
  show ?case by (simp add: escape_def str_replace_single)
next
  case (Cons c cs)
  have e: "esc_char c =
     (if c = BSLASH then [BSLASH, BSLASH]
      else if c = QUOTE then [BSLASH, QUOTE]
      else if c = NL then [BSLASH, CHR ''n'']
      else [c])"
    by (simp add: esc_char_def)
  show ?case
    using Cons.IH by (simp add: escape_def str_replace_single e)
qed

lemma unescape_pass3:
  "replace_from [BSLASH, BSLASH] [BSLASH] (concat (map esc_char2 s)) = s"
proof (induction s)
  case Nil
  show ?case by simp
next
  case (Cons c cs)
  have e2: "esc_char2 c = (if c = BSLASH then [BSLASH, BSLASH] else [c])"
    by (simp add: esc_char2_def)
  show ?case
    using Cons.IH by (simp add: e2 replace_from_pair)
qed

lemma unescape_pass2:
  "replace_from [BSLASH, QUOTE] [QUOTE] (concat (map esc_char1 s)) = concat (map esc_char2 s)
   \<and> replace_from [BSLASH, QUOTE] [QUOTE] (BSLASH # concat (map esc_char1 s))
       = BSLASH # concat (map esc_char2 s)"
proof (induction s)
  case Nil
  show ?case by (simp add: replace_from_pair)
next
  case (Cons c cs)
  have e1: "esc_char1 c =
      (if c = BSLASH then [BSLASH, BSLASH] else if c = QUOTE then [BSLASH, QUOTE] else [c])"
    by (simp add: esc_char1_def)
  have e2: "esc_char2 c = (if c = BSLASH then [BSLASH, BSLASH] else [c])"
    by (simp add: esc_char2_def)
  show ?case
    using Cons.IH by (simp add: e1 e2 replace_from_pair)
qed

lemma unescape_pass1:
  "\<not> has_backslash_n s \<Longrightarrow> s = [] \<or> hd s \<noteq> CHR ''n'' \<or> \<not> p \<Longrightarrow>
   replace_from [BSLASH, CHR ''n''] [NL] (concat (map esc_char s)) = concat (map esc_char1 s)
   \<and> (p \<longrightarrow> replace_from [BSLASH, CHR ''n''] [NL] (BSLASH # concat (map esc_char s))
          = BSLASH # concat (map esc_char1 s))"
proof (induction s arbitrary: p)
  case Nil
  then show ?case by (simp add: replace_from_pair)
next
  case (Cons c cs)
  have e: "esc_char c =
     (if c = BSLASH then [BSLASH, BSLASH]
      else if c = QUOTE then [BSLASH, QUOTE]
      else if c = NL then [BSLASH, CHR ''n'']
      else [c])"
    by (simp add: esc_char_def)
  have e1: "esc_char1 c =
      (if c = BSLASH then [BSLASH, BSLASH] else if c = QUOTE then [BSLASH, QUOTE] else [c])"
    by (simp add: esc_char1_def)
  have nb: "\<not> has_backslash_n cs"
    using Cons.prems(1) by (cases cs) auto
  have nn: "c = BSLASH \<Longrightarrow> cs = [] \<or> hd cs \<noteq> CHR ''n''"
    using Cons.prems(1) by (cases cs) auto
  have ih1: "replace_from [BSLASH, CHR ''n''] [NL] (concat (map esc_char cs))
      = concat (map esc_char1 cs)"
    using Cons.IH [of False] nb by simp
  have ih2: "c = BSLASH \<Longrightarrow>
      replace_from [BSLASH, CHR ''n''] [NL] (BSLASH # concat (map esc_char cs))
      = BSLASH # concat (map esc_char1 cs)"
    using Cons.IH [of True] nb nn by simp
  have hd_ne: "p \<Longrightarrow> c \<noteq> CHR ''n''"
    using Cons.prems(2) by simp
  show ?case
    using ih1 ih2 hd_ne by (simp add: e e1 replace_from_pair)
qed

lemma unescape_escape:
  assumes "\<not> has_backslash_n s"
  shows "unescape (escape s) = s"
proof -
  have "replace_from [BSLASH, CHR ''n''] [NL] (escape s) = concat (map esc_char1 s)"
    using unescape_pass1 [of s False] assms by (simp add: escape_concat)
  then show ?thesis
    by (simp add: unescape_def str_replace_def unescape_pass2 unescape_pass3)
qed

section \<open>The domain resolver: lemmas\<close>

lemma first_rule_spec:
  "(\<exists>i<length rs. startswith p (fst (rs ! i))
        \<and> (\<forall>j<i. \<not> startswith p (fst (rs ! j)))
        \<and> first_rule rs p = Some (snd (rs ! i)))
   \<or> ((\<forall>i<length rs. \<not> startswith p (fst (rs ! i))) \<and> first_rule rs p = None)"
proof (induction rs)
  case Nil
  show ?case by simp
next
  case (Cons r rs)
  obtain pre d where r: "r = (pre, d)" by (cases r)
  show ?case
  proof (cases "startswith p pre")
    case True
    then have "0 < length (r # rs) \<and> startswith p (fst ((r # rs) ! 0))
        \<and> (\<forall>j<0. \<not> startswith p (fst ((r # rs) ! j)))
        \<and> first_rule (r # rs) p = Some (snd ((r # rs) ! 0))"
      by (simp add: r)
    then show ?thesis by blast
  next
    case False
    from Cons.IH show ?thesis
    proof
      assume "\<exists>i<length rs. startswith p (fst (rs ! i))
        \<and> (\<forall>j<i. \<not> startswith p (fst (rs ! j)))
        \<and> first_rule rs p = Some (snd (rs ! i))"
      then obtain i where i: "i < length rs" "startswith p (fst (rs ! i))"
        "\<forall>j<i. \<not> startswith p (fst (rs ! j))" "first_rule rs p = Some (snd (rs ! i))"
        by blast
      have "Suc i < length (r # rs) \<and> startswith p (fst ((r # rs) ! Suc i))
        \<and> (\<forall>j<Suc i. \<not> startswith p (fst ((r # rs) ! j)))
        \<and> first_rule (r # rs) p = Some (snd ((r # rs) ! Suc i))"
        using i False by (auto simp: r nth_Cons' less_Suc_eq_0_disj)
      then show ?thesis by blast
    next
      assume "(\<forall>i<length rs. \<not> startswith p (fst (rs ! i))) \<and> first_rule rs p = None"
      then show ?thesis
        using False by (auto simp: r nth_Cons' less_Suc_eq_0_disj)
    qed
  qed
qed

section \<open>Substitution and the call rewriter: lemmas\<close>

lemma startswith_Nil [simp]: "startswith s []"
  by (simp add: startswith_def)

lemma startswith_Nil_Cons [simp]: "\<not> startswith [] (p # P)"
  by (simp add: startswith_def)

lemma startswith_Cons [simp]: "startswith (c # s) (p # P) \<longleftrightarrow> c = p \<and> startswith s P"
  by (simp add: startswith_def)

lemma startswith_append_iff: "startswith s p \<longleftrightarrow> (\<exists>r. s = p @ r)"
  unfolding startswith_def
  by (metis append_eq_conv_conj append_take_drop_id)

lemma startswith_same [simp]: "startswith (p @ r) p"
  by (simp add: startswith_append_iff)

lemma startswith_barrier:
  "startswith (xs @ q # r) P \<Longrightarrow> q \<notin> set P \<Longrightarrow> \<exists>zs. xs = P @ zs"
proof (induction xs arbitrary: P)
  case Nil
  then show ?case by (cases P) auto
next
  case (Cons x xs)
  then show ?case by (cases P) auto
qed

lemma sub_from_nomatch: "nomatch m prev s \<Longrightarrow> sub_from m rep prev s = s"
  by (induction s arbitrary: prev) auto

lemma form_sub_nomatch: "nomatch m prev s \<Longrightarrow> form_sub m repl prev s = s"
  by (simp add: form_sub_def sub_from_nomatch)

lemma parse_template_plain: "BSLASH \<notin> set t \<Longrightarrow> parse_template g t = Inr (map Lit t)"
  by (induction t) (auto simp: lit_def)

lemma expand_lits: "expand (map Lit t) w gs = t"
  by (induction t) auto

lemma re_sub_plain: "BSLASH \<notin> set t \<Longrightarrow> re_sub m g t s = Inr (form_sub m t None s)"
proof -
  have "expand (map Lit t) = (\<lambda>w gs. t)"
    by (intro ext) (rule expand_lits)
  then show "BSLASH \<notin> set t \<Longrightarrow> re_sub m g t s = Inr (form_sub m t None s)"
    by (simp add: re_sub_def parse_template_plain form_sub_def)
qed

lemma startswith_sub_from:
  assumes "\<And>w gs. rep w gs \<noteq> [] \<and> hd (rep w gs) \<notin> set P"
  shows "startswith (sub_from m rep prev s) P \<Longrightarrow> startswith s P"
  using assms
proof (induction P arbitrary: s prev)
  case Nil
  show ?case by simp
next
  case (Cons p P)
  have rep: "\<And>w gs. rep w gs \<noteq> [] \<and> hd (rep w gs) \<noteq> p \<and> hd (rep w gs) \<notin> set P"
    using Cons.prems(2) by auto
  note IH = Cons.IH and st = Cons.prems(1)
  show ?case
  proof (cases s)
    case Nil
    with st show ?thesis by simp
  next
    case s: (Cons c cs)
    have keep: "startswith (c # sub_from m rep (Some c) cs) (p # P) \<Longrightarrow> startswith (c # cs) (p # P)"
      using IH [where s = cs and prev = "Some c"] rep by auto
    have hit: "\<not> startswith (rep w gs @ t) (p # P)" for w gs t
      using rep [of w gs] by (cases "rep w gs") auto
    show ?thesis
      using st keep hit
      by (auto simp: s split: option.splits if_splits)
  qed
qed

lemma bare_prev_cong:
  "not_after_d_or_word p = not_after_d_or_word p' \<Longrightarrow> bare P p s = bare P p' s"
  by (simp add: bare_def)

lemma nomatch_bare_prev_cong:
  "not_after_d_or_word p = not_after_d_or_word p' \<Longrightarrow> nomatch (bare P) p s = nomatch (bare P) p' s"
  by (cases s) (simp_all add: bare_def)

lemma nomatch_append_right:
  "nomatch m prev (xs @ ys) \<Longrightarrow> xs \<noteq> [] \<Longrightarrow> nomatch m (Some (last xs)) ys"
  by (induction xs arbitrary: prev) (auto split: if_splits)

lemma nomatch_bare_barrier:
  "nomatch (bare P) prev (xs @ [q]) \<Longrightarrow> q \<notin> set P \<Longrightarrow> P \<noteq> [] \<Longrightarrow>
   nomatch (bare P) (Some q) r \<Longrightarrow> nomatch (bare P) prev (xs @ q # r)"
proof (induction xs arbitrary: prev)
  case Nil
  then show ?case by (cases P) (auto simp: bare_def)
next
  case (Cons x xs)
  have "startswith ((x # xs) @ [q]) P" if st: "startswith ((x # xs) @ q # r) P"
  proof -
    obtain zs where "x # xs = P @ zs"
      using startswith_barrier [OF st Cons.prems(2)] by blast
    then have "(x # xs) @ [q] = P @ (zs @ [q])" by simp
    then show ?thesis unfolding startswith_append_iff by blast
  qed
  then have "bare P prev (x # xs @ q # r) = None"
    using Cons.prems(1) by (auto simp: bare_def split: if_splits)
  moreover have "nomatch (bare P) (Some x) (xs @ q # r)"
    using Cons.IH [of "Some x"] Cons.prems by simp
  ultimately show ?case by simp
qed

lemma nomatch_bare_without:
  "c \<notin> set xs \<Longrightarrow> c \<in> set P \<Longrightarrow> q \<notin> set P \<Longrightarrow> nomatch (bare P) prev (xs @ [q])"
proof (induction xs arbitrary: prev)
  case Nil
  then show ?case by (cases P) (auto simp: bare_def)
next
  case (Cons x xs)
  have "\<not> startswith ((x # xs) @ [q]) P"
  proof
    assume "startswith ((x # xs) @ [q]) P"
    then obtain zs where "x # xs = P @ zs"
      using startswith_barrier [of "x # xs" q "[]" P] Cons.prems(3) by auto
    then have "set P \<subseteq> set (x # xs)"
      by (metis set_append Un_upper1)
    with Cons.prems(1,2) show False by auto
  qed
  then have "bare P prev (x # xs @ [q]) = None"
    by (simp add: bare_def)
  moreover have "nomatch (bare P) (Some x) (xs @ [q])"
    using Cons.IH [of "Some x"] Cons.prems by simp
  ultimately show ?case by simp
qed

text \<open>After the label and the closing of the replacement, nothing matches.\<close>

lemma nomatch_bare_label:
  assumes "CHR ''('' \<notin> set lab" "CHR ''('' \<in> set P" "QUOTE \<notin> set P" "CHR '','' \<notin> set P"
    "CHR '' '' \<notin> set P" "nomatch (bare P) (Some (CHR '' '')) t"
  shows "nomatch (bare P) prev (lab @ QUOTE # CHR '','' # CHR '' '' # t)"
proof -
  have P: "P \<noteq> []" using assms(2) by auto
  have "nomatch (bare P) (Some QUOTE) (CHR '','' # CHR '' '' # t)"
    using assms P by (cases P) (auto simp: bare_def)
  then show ?thesis
    using nomatch_bare_barrier [of P prev lab QUOTE "CHR '','' # CHR '' '' # t"]
      nomatch_bare_without [of "CHR ''(''" lab P QUOTE prev] assms P
    by simp
qed

lemma RE_GETTEXT_bare: "RE_GETTEXT = bare ''gettext(''"
  by (intro ext) (simp add: RE_GETTEXT_def bare_def)

lemma RE_NGETTEXT_bare: "RE_NGETTEXT = bare ''ngettext(''"
  by (intro ext) (simp add: RE_NGETTEXT_def bare_def)

lemma not_after_simps [simp]:
  "not_after_d_or_word None"
  "not_after_d_or_word (Some (CHR ''(''))"
  "not_after_d_or_word (Some (CHR '' ''))"
  "not_after_d_or_word (Some (CHR ''.''))"
  "not_after_d_or_word (Some QUOTE)"
  "\<not> not_after_d_or_word (Some (CHR ''d''))"
  "\<not> not_after_d_or_word (Some (CHR ''n''))"
  by (simp_all add: not_after_d_or_word_def is_word_def)

lemma nomatch_gettext_replA:
  assumes "CHR ''('' \<notin> set lab" "nomatch (bare ''gettext('') (Some (CHR '' '')) t"
  shows \<open>nomatch (bare ''gettext('') prev ((''dgettext("'' @ lab @ ''", '') @ t)\<close>
  using nomatch_bare_label [where lab = lab and P = "''gettext(''" and t = t and prev = "Some QUOTE"] assms
  by (simp add: bare_def)

lemma nomatch_gettext_replB:
  assumes "CHR ''('' \<notin> set lab" "nomatch (bare ''gettext('') (Some (CHR '' '')) t"
  shows \<open>nomatch (bare ''gettext('') prev ((''dngettext("'' @ lab @ ''", '') @ t)\<close>
  using nomatch_bare_label [where lab = lab and P = "''gettext(''" and t = t and prev = "Some QUOTE"] assms
  by (simp add: bare_def)

lemma nomatch_ngettext_replB:
  assumes "CHR ''('' \<notin> set lab" "nomatch (bare ''ngettext('') (Some (CHR '' '')) t"
  shows \<open>nomatch (bare ''ngettext('') prev ((''dngettext("'' @ lab @ ''", '') @ t)\<close>
  using nomatch_bare_label [where lab = lab and P = "''ngettext(''" and t = t and prev = "Some QUOTE"] assms
  by (simp add: bare_def)

lemma form_sub_Nil [simp]: "form_sub m R prev [] = []"
  by (simp add: form_sub_def)

lemma startswith_nth_last:
  assumes "startswith s Q" "Q \<noteq> []"
  shows "s ! (length Q - 1) = last Q" "take (length Q) s = Q" "length Q \<le> length s"
proof -
  obtain r where s: "s = Q @ r" using assms(1) startswith_append_iff by blast
  show "s ! (length Q - 1) = last Q"
    using assms(2) by (simp add: s nth_append last_conv_nth)
  show "take (length Q) s = Q" "length Q \<le> length s"
    by (simp_all add: s)
qed

lemma form_sub_bare_Cons:
  "form_sub (bare Q) R prev (c # cs) =
     (if not_after_d_or_word prev \<and> startswith (c # cs) Q \<and> Q \<noteq> []
      then R @ form_sub (bare Q) R (Some (last Q)) (drop (length Q) (c # cs))
      else c # form_sub (bare Q) R (Some c) cs)"
proof (cases "not_after_d_or_word prev \<and> startswith (c # cs) Q \<and> Q \<noteq> []")
  case True
  then have "bare Q prev (c # cs) = Some (length Q, [])"
    by (simp add: bare_def)
  moreover have "(c # cs) ! (length Q - 1) = last Q" "length Q \<le> length (c # cs)" "0 < length Q"
    using startswith_nth_last [of "c # cs" Q] True by auto
  ultimately show ?thesis
    using True by (simp add: form_sub_def del: nth_Cons_numeral)
next
  case False
  then have "bare Q prev (c # cs) = None \<or> bare Q prev (c # cs) = Some (0, [])"
    by (auto simp: bare_def)
  then show ?thesis
    using False by (auto simp: form_sub_def)
qed

lemma startswith_form_sub:
  "R \<noteq> [] \<Longrightarrow> hd R \<notin> set P \<Longrightarrow> startswith (form_sub m R prev s) P \<Longrightarrow> startswith s P"
  unfolding form_sub_def by (rule startswith_sub_from) auto

text \<open>A substitution for one bare form leaves no match of a pattern that did not match
  before and cannot match in or across the replacement.\<close>

lemma nomatch_form_sub_other:
  assumes R: "R \<noteq> []" "hd R \<notin> set P"
    and RP: "\<And>prev t. nomatch (bare P) (Some (CHR '' '')) t \<Longrightarrow> nomatch (bare P) prev (R @ t)"
    and Q: "not_after_d_or_word (Some (last Q))"
  shows "nomatch (bare P) prev s \<Longrightarrow> nomatch (bare P) prev (form_sub (bare Q) R prev s)"
proof (induction s arbitrary: prev rule: length_induct)
  case (1 s)
  note IH = "1.IH" and nm = "1.prems"
  show ?case
  proof (cases s)
    case Nil
    then show ?thesis by simp
  next
    case s: (Cons c cs)
    show ?thesis
    proof (cases "not_after_d_or_word prev \<and> startswith (c # cs) Q \<and> Q \<noteq> []")
      case True
      then obtain rest where rest: "c # cs = Q @ rest"
        using startswith_append_iff by blast
      have "nomatch (bare P) (Some (last Q)) rest"
        using nm True nomatch_append_right [of "bare P" prev Q rest] by (simp add: s rest)
      moreover have "length rest < length s"
        using True by (simp add: s rest)
      ultimately have "nomatch (bare P) (Some (last Q)) (form_sub (bare Q) R (Some (last Q)) rest)"
        using IH by blast
      then have "nomatch (bare P) (Some (CHR '' '')) (form_sub (bare Q) R (Some (last Q)) rest)"
        using nomatch_bare_prev_cong [of "Some (last Q)" "Some (CHR '' '')" P] Q by simp
      then have "nomatch (bare P) prev (R @ form_sub (bare Q) R (Some (last Q)) rest)"
        by (rule RP)
      moreover have "drop (length Q) (c # cs) = rest"
        by (simp add: rest)
      ultimately show ?thesis
        using True by (simp add: s form_sub_bare_Cons del: drop_Suc_Cons)
    next
      case False
      have eq: "form_sub (bare Q) R prev (c # cs) = c # form_sub (bare Q) R (Some c) cs"
        by (subst form_sub_bare_Cons) (use False in auto)
      have "nomatch (bare P) (Some c) (form_sub (bare Q) R (Some c) cs)"
        using IH nm by (simp add: s)
      moreover have "bare P prev (c # form_sub (bare Q) R (Some c) cs) = None"
      proof (cases "not_after_d_or_word prev")
        case True
        have "\<not> startswith (c # cs) P"
          using nm True by (simp add: s bare_def split: if_splits)
        then have "\<not> startswith (form_sub (bare Q) R prev (c # cs)) P"
          using startswith_form_sub [OF R] by blast
        then show ?thesis
          by (simp add: eq bare_def)
      next
        case False
        then show ?thesis by (simp add: bare_def)
      qed
      ultimately show ?thesis
        by (simp add: s eq)
    qed
  qed
qed

text \<open>A substitution for a bare form leaves no match of its own pattern.\<close>

lemma nomatch_form_sub_self:
  assumes R: "R \<noteq> []" "hd R \<notin> set P"
    and RP: "\<And>prev t. nomatch (bare P) (Some (CHR '' '')) t \<Longrightarrow> nomatch (bare P) prev (R @ t)"
    and P: "not_after_d_or_word (Some (last P))" and P_ne: "P \<noteq> []"
  shows "nomatch (bare P) prev (form_sub (bare P) R prev s)"
proof (induction s arbitrary: prev rule: length_induct)
  case (1 s)
  note IH = "1.IH"
  show ?case
  proof (cases s)
    case Nil
    then show ?thesis by simp
  next
    case s: (Cons c cs)
    show ?thesis
    proof (cases "not_after_d_or_word prev \<and> startswith (c # cs) P \<and> P \<noteq> []")
      case True
      then obtain rest where rest: "c # cs = P @ rest"
        using startswith_append_iff by blast
      have "length rest < length s"
        using True by (simp add: s rest)
      then have "nomatch (bare P) (Some (last P)) (form_sub (bare P) R (Some (last P)) rest)"
        using IH by blast
      then have "nomatch (bare P) (Some (CHR '' '')) (form_sub (bare P) R (Some (last P)) rest)"
        using nomatch_bare_prev_cong [of "Some (last P)" "Some (CHR '' '')" P] P by simp
      then have "nomatch (bare P) prev (R @ form_sub (bare P) R (Some (last P)) rest)"
        by (rule RP)
      moreover have "drop (length P) (c # cs) = rest"
        by (simp add: rest)
      ultimately show ?thesis
        using True by (simp add: s form_sub_bare_Cons del: drop_Suc_Cons)
    next
      case False
      have eq: "form_sub (bare P) R prev (c # cs) = c # form_sub (bare P) R (Some c) cs"
        by (subst form_sub_bare_Cons) (use False in auto)
      have "nomatch (bare P) (Some c) (form_sub (bare P) R (Some c) cs)"
        using IH by (simp add: s)
      moreover have "bare P prev (c # form_sub (bare P) R (Some c) cs) = None"
      proof (cases "not_after_d_or_word prev")
        case True
        have "\<not> startswith (c # cs) P"
          using False True P_ne by auto
        then have "\<not> startswith (form_sub (bare P) R prev (c # cs)) P"
          using startswith_form_sub [OF R] by blast
        then show ?thesis
          by (simp add: eq bare_def)
      next
        case False
        then show ?thesis by (simp add: bare_def)
      qed
      ultimately show ?thesis
        by (simp add: s eq)
    qed
  qed
qed

lemma nomatch_mod_form:
  assumes "startswith name (''Gettext.'' @ P)" "P \<noteq> []"
  shows "nomatch (bare P) prev s \<Longrightarrow> nomatch (mod_form name) prev s"
proof (induction s arbitrary: prev)
  case Nil
  show ?case by simp
next
  case (Cons c cs)
  have "mod_form name prev (c # cs) = None"
  proof (rule ccontr)
    assume "mod_form name prev (c # cs) \<noteq> None"
    then have "startswith (c # cs) name"
      by (auto simp: mod_form_def split: if_splits)
    then obtain r r' where "c # cs = (''Gettext.'' @ P @ r') @ r"
      using assms(1) unfolding startswith_append_iff by auto
    then have cs: "c # cs = ''Gettext.'' @ P @ (r' @ r)"
      by simp
    have "nomatch (bare P) prev (''Gettext.'' @ P @ (r' @ r))"
      using Cons.prems by (simp only: cs)
    then have "nomatch (bare P) (Some (CHR ''.'')) (P @ (r' @ r))"
      using nomatch_append_right [of "bare P" prev "''Gettext.''" "P @ (r' @ r)"] by simp
    then show False
      using assms(2) by (cases P) (auto simp: bare_def)
  qed
  then show ?case
    using Cons by simp
qed

lemma domain_labels_plain:
  "d \<in> set (map snd DOMAIN_RULES) \<Longrightarrow> BSLASH \<notin> set d \<and> CHR ''('' \<notin> set d"
  by (auto simp: DOMAIN_RULES_def)

lemma transform_content_plain:
  assumes "BSLASH \<notin> set d"
  shows \<open>transform_content c d =
    Inr (form_sub RE_NGETTEXT (''dngettext("'' @ d @ ''", '') None
          (form_sub RE_GETTEXT (''dgettext("'' @ d @ ''", '') None
            (form_sub RE_MOD_NGETTEXT (''Gettext.dngettext(StoryarnWeb.Gettext, "'' @ d @ ''", '') None
              (form_sub RE_MOD_GETTEXT (''Gettext.dgettext(StoryarnWeb.Gettext, "'' @ d @ ''", '') None
                 c))))\<close>
  using assms by (simp add: transform_content_def re_sub_plain)

lemma transform_content_fixed:
  assumes "BSLASH \<notin> set d"
    and "nomatch RE_MOD_GETTEXT None r" "nomatch RE_MOD_NGETTEXT None r"
    and "nomatch RE_GETTEXT None r" "nomatch RE_NGETTEXT None r"
  shows "transform_content r d = Inr r"
  using assms by (simp add: transform_content_plain form_sub_nomatch)

lemma transform_content_no_match:
  assumes d: "BSLASH \<notin> set d" "CHR ''('' \<notin> set d"
  shows \<open>\<exists>r. transform_content c d = Inr r
     \<and> nomatch RE_MOD_GETTEXT None r \<and> nomatch RE_MOD_NGETTEXT None r
     \<and> nomatch RE_GETTEXT None r \<and> nomatch RE_NGETTEXT None r\<close>
proof -
  define c2 where \<open>c2 =
    form_sub RE_MOD_NGETTEXT (''Gettext.dngettext(StoryarnWeb.Gettext, "'' @ d @ ''", '') None
      (form_sub RE_MOD_GETTEXT (''Gettext.dgettext(StoryarnWeb.Gettext, "'' @ d @ ''", '') None c)\<close>
  define c3 where \<open>c3 = form_sub (bare ''gettext('') (''dgettext("'' @ d @ ''", '') None c2\<close>
  define r where \<open>r = form_sub (bare ''ngettext('') (''dngettext("'' @ d @ ''", '') None c3\<close>
  have tr: "transform_content c d = Inr r"
    using d(1) by (simp add: transform_content_plain r_def c3_def c2_def
        RE_GETTEXT_bare RE_NGETTEXT_bare)
  have A3: "nomatch (bare ''gettext('') None c3"
    unfolding c3_def
    by (rule nomatch_form_sub_self [OF _ _ nomatch_gettext_replA [OF d(2)]]) simp_all
  have A: "nomatch (bare ''gettext('') None r"
    unfolding r_def
    by (rule nomatch_form_sub_other [OF _ _ nomatch_gettext_replB [OF d(2)] _ A3]) simp_all
  have B: "nomatch (bare ''ngettext('') None r"
    unfolding r_def
    by (rule nomatch_form_sub_self [OF _ _ nomatch_ngettext_replB [OF d(2)]]) simp_all
  have C: "nomatch RE_MOD_GETTEXT None r"
    unfolding RE_MOD_GETTEXT_def by (rule nomatch_mod_form [OF _ _ A]) simp_all
  have D: "nomatch RE_MOD_NGETTEXT None r"
    unfolding RE_MOD_NGETTEXT_def by (rule nomatch_mod_form [OF _ _ B]) simp_all
  show ?thesis
    using tr A B C D by (simp add: RE_GETTEXT_bare RE_NGETTEXT_bare)
qed

lemma sub_from_prev_cong:
  "(\<And>t. m p t = m p' t) \<Longrightarrow> sub_from m rep p s = sub_from m rep p' s"
  by (cases s) simp_all

lemma form_sub_bare_prev_cong:
  "not_after_d_or_word p = not_after_d_or_word p' \<Longrightarrow>
   form_sub (bare P) R p s = form_sub (bare P) R p' s"
  unfolding form_sub_def by (rule sub_from_prev_cong) (simp add: bare_def)

lemma form_sub_mod_prev_cong:
  "word_start p = word_start p' \<Longrightarrow>
   form_sub (mod_form name) R p s = form_sub (mod_form name) R p' s"
  unfolding form_sub_def by (rule sub_from_prev_cong) (simp add: mod_form_def)

lemma form_sub_bare_prefix:
  "nomatch (bare P) prev (xs @ [q]) \<Longrightarrow> q \<notin> set P \<Longrightarrow> P \<noteq> [] \<Longrightarrow>
   form_sub (bare P) R prev (xs @ q # r) = xs @ q # form_sub (bare P) R (Some q) r"
proof (induction xs arbitrary: prev)
  case Nil
  then show ?case
    by (cases P) (auto simp: form_sub_bare_Cons)
next
  case (Cons x xs)
  have "\<not> (not_after_d_or_word prev \<and> startswith (x # xs @ q # r) P)"
  proof
    assume a: "not_after_d_or_word prev \<and> startswith (x # xs @ q # r) P"
    then have "startswith ((x # xs) @ q # r) P" by simp
    then obtain zs where "x # xs = P @ zs"
      using startswith_barrier Cons.prems(2) by blast
    then have "(x # xs) @ [q] = P @ (zs @ [q])" by simp
    then have "startswith ((x # xs) @ [q]) P"
      unfolding startswith_append_iff by blast
    then show False
      using a Cons.prems(1) by (simp add: bare_def)
  qed
  then have "form_sub (bare P) R prev (x # xs @ q # r) = x # form_sub (bare P) R (Some x) (xs @ q # r)"
    by (subst form_sub_bare_Cons) auto
  then show ?case
    using Cons.IH [of "Some x"] Cons.prems by simp
qed

lemma word_start_simps [simp]:
  "word_start None" "word_start (Some (CHR ''(''))" "word_start (Some (CHR '' ''))"
  "\<not> word_start (Some (CHR ''t''))"
  by (simp_all add: word_start_def is_word_def)

text \<open>
  A substitution on a text \<open>pre @ t\<close>, when no match that begins in \<open>pre\<close> depends on
  \<open>t\<close>: it is the substitution on \<open>pre\<close> followed by the substitution on \<open>t\<close>, which
  has the last character of \<open>pre\<close> before it.
\<close>

lemma sub_from_step:
  "xs \<noteq> [] \<Longrightarrow> sub_from m rep prev xs =
     (case m prev xs of
        None \<Rightarrow> hd xs # sub_from m rep (Some (hd xs)) (tl xs)
      | Some (n, gs) \<Rightarrow>
          if 0 < n \<and> n \<le> length xs
          then rep (take n xs) gs @ sub_from m rep (Some (xs ! (n - 1))) (drop n xs)
          else hd xs # sub_from m rep (Some (hd xs)) (tl xs))"
  by (cases xs) (auto split: option.splits)

lemma sub_from_append:
  assumes ind: "\<And>p v. v \<noteq> [] \<Longrightarrow> m p (v @ t) = m p v"
    and len: "\<And>p v n gs. m p v = Some (n, gs) \<Longrightarrow> n \<le> length v"
  shows "sub_from m rep prev (pre @ t)
     = sub_from m rep prev pre
         @ sub_from m rep (if pre = [] then prev else Some (last pre)) t"
proof (induction "length pre" arbitrary: pre prev rule: less_induct)
  case less
  show ?case
  proof (cases "pre = []")
    case True
    then show ?thesis by simp
  next
    case ne: False
    have m_eq: "m prev (pre @ t) = m prev pre"
      using ind [OF ne] .
    have ne': "pre @ t \<noteq> []" using ne by simp
    have step: "sub_from m rep (Some (hd pre)) (tl pre @ t)
        = sub_from m rep (Some (hd pre)) (tl pre) @ sub_from m rep (Some (last pre)) t"
      using less [of "tl pre" "Some (hd pre)"] ne
      by (cases pre) (simp_all)
    have hdtl: "hd (pre @ t) = hd pre" "tl (pre @ t) = tl pre @ t"
      using ne by simp_all
    show ?thesis
    proof (cases "m prev pre")
      case None
      then show ?thesis
        unfolding sub_from_step [OF ne'] sub_from_step [OF ne] m_eq hdtl
        using step ne by simp
    next
      case (Some a)
      obtain n gs where a: "a = (n, gs)" by (cases a)
      have n: "n \<le> length pre"
        using len [of prev pre n gs] Some a by simp
      show ?thesis
      proof (cases "0 < n")
        case False
        then show ?thesis
          unfolding sub_from_step [OF ne'] sub_from_step [OF ne] m_eq hdtl
          using step ne Some a by simp
      next
        case True
        define r where "r = drop n pre"
        have r: "length r < length pre"
          using True n ne by (simp add: r_def)
        have ih: "sub_from m rep (Some (pre ! (n - 1))) (r @ t)
            = sub_from m rep (Some (pre ! (n - 1))) r
                @ sub_from m rep (if r = [] then Some (pre ! (n - 1)) else Some (last r)) t"
          using less [OF r] by simp
        have lastr: "(if r = [] then Some (pre ! (n - 1)) else Some (last r))
            = Some (last pre)"
        proof (cases "r = []")
          case True
          then have "n = length pre" using n by (simp add: r_def)
          then show ?thesis using True ne by (simp add: last_conv_nth)
        next
          case False
          then show ?thesis by (simp add: r_def)
        qed
        have p1: "take n (pre @ t) = take n pre"
          using n by simp
        have "n - 1 < length pre"
          using True n by arith
        then have p2: "(pre @ t) ! (n - 1) = pre ! (n - 1)"
          by (simp only: nth_append if_True)
        have p3: "drop n (pre @ t) = r @ t"
          using n by (simp add: r_def)
        have n': "n \<le> length (pre @ t)" using n by simp
        have "sub_from m rep prev (pre @ t)
            = rep (take n pre) gs @ sub_from m rep (Some (pre ! (n - 1))) (r @ t)"
          unfolding sub_from_step [OF ne'] m_eq Some a
          using True n n' p2 by (simp add: r_def)
        moreover have "sub_from m rep prev pre
            = rep (take n pre) gs @ sub_from m rep (Some (pre ! (n - 1))) r"
          unfolding sub_from_step [OF ne] Some a r_def
          using True n by simp
        ultimately show ?thesis
          using ih lastr ne by simp
      qed
    qed
  qed
qed

lemma startswith_append_hd:
  "t \<noteq> [] \<Longrightarrow> hd t \<notin> set P \<Longrightarrow> startswith (v @ t) P = startswith v P"
proof (induction P arbitrary: v)
  case Nil
  then show ?case by simp
next
  case (Cons p P)
  then show ?case by (cases v; cases t) auto
qed

lemma startswith_append_blind:
  "(\<And>k. k < length P \<Longrightarrow> \<not> startswith t (drop k P)) \<Longrightarrow>
   startswith (w @ t) P = startswith w P"
proof (induction P arbitrary: w)
  case Nil
  then show ?case by simp
next
  case (Cons p P)
  show ?case
  proof (cases w)
    case Nil
    then show ?thesis using Cons.prems [of 0] by simp
  next
    case (Cons c w')
    have "startswith (w' @ t) P = startswith w' P"
    proof (rule Cons.IH)
      fix k assume "k < length P"
      then show "\<not> startswith t (drop k P)"
        using Cons.prems [of "Suc k"] by simp
    qed
    then show ?thesis using Cons by simp
  qed
qed

lemma dropWhile_space_append:
  "t \<noteq> [] \<Longrightarrow> \<not> is_space (hd t) \<Longrightarrow>
   dropWhile is_space (y @ t) = dropWhile is_space y @ t"
  by (induction y) (auto simp: neq_Nil_conv)

lemma bare_append:
  "t \<noteq> [] \<Longrightarrow> hd t \<notin> set P \<Longrightarrow> bare P p (v @ t) = bare P p v"
  by (simp add: bare_def startswith_append_hd)

lemma bare_length: "bare P p v = Some (n, gs) \<Longrightarrow> n \<le> length v"
  by (auto simp: bare_def startswith_append_iff split: if_splits)

lemma mod_form_length: "mod_form name p v = Some (n, gs) \<Longrightarrow> n \<le> length v"
  by (auto simp: mod_form_def split: if_splits)

lemma handle_blind:
  "startswith (w @ ''Gettext.gettext('' @ rest) ''StoryarnWeb.Gettext,''
     = startswith w ''StoryarnWeb.Gettext,''"
proof (rule startswith_append_blind)
  fix k :: nat
  assume "k < length ''StoryarnWeb.Gettext,''"
  then have "k \<in> {0..<20}" by simp
  then have "k \<in> set [0..<20]" by simp
  then have "k \<in> {0,1,2,3,4,5,6,7,8,9,10,11,12,13,14,15,16,17,18,19}"
    by (simp add: upt_rec numeral_eq_Suc)
  then show "\<not> startswith (''Gettext.gettext('' @ rest) (drop k ''StoryarnWeb.Gettext,'')"
    by (elim insertE emptyE) simp_all
qed

lemma mod_form_append:
  assumes name: "CHR ''G'' \<notin> set (tl name)" and v: "v \<noteq> []"
  shows "mod_form name p (v @ ''Gettext.gettext('' @ rest) = mod_form name p v"
proof -
  define t where "t = ''Gettext.gettext('' @ rest"
  have t: "t \<noteq> []" "hd t = CHR ''G''" "\<not> is_space (hd t)"
    by (simp_all add: t_def is_space_def)
  have sw: "startswith (v @ t) name = startswith v name"
  proof (cases name)
    case Nil
    then show ?thesis by simp
  next
    case (Cons q nm)
    obtain c v' where v': "v = c # v'" using v by (cases v) auto
    have "startswith (v' @ t) nm = startswith v' nm"
      by (rule startswith_append_hd) (use t name Cons in simp_all)
    then show ?thesis by (simp add: Cons v')
  qed
  show ?thesis
  proof (cases "startswith v name")
    case False
    then show ?thesis using sw by (simp add: mod_form_def t_def)
  next
    case True
    then obtain y where y: "v = name @ y"
      using startswith_append_iff by blast
    define w where "w = dropWhile is_space y"
    have d1: "dropWhile is_space (drop (length name) (v @ t)) = w @ t"
      using dropWhile_space_append [OF t(1) t(3), of y] by (simp add: y w_def)
    have d2: "dropWhile is_space (drop (length name) v) = w"
      by (simp add: y w_def)
    have hb: "startswith (w @ t) ''StoryarnWeb.Gettext,'' = startswith w ''StoryarnWeb.Gettext,''"
      unfolding t_def by (rule handle_blind)
    show ?thesis
    proof (cases "startswith w ''StoryarnWeb.Gettext,''")
      case False
      then show ?thesis
        using hb d1 d2 sw unfolding mod_form_def t_def [symmetric] by simp
    next
      case True
      then obtain z where z: "w = ''StoryarnWeb.Gettext,'' @ z"
        using startswith_append_iff by blast
      have "drop 20 (w @ t) = z @ t" "drop 20 w = z"
        by (simp_all add: z)
      moreover have "dropWhile is_space (z @ t) = dropWhile is_space z @ t"
        by (rule dropWhile_space_append [OF t(1) t(3)])
      moreover have "length (dropWhile is_space z) \<le> length v"
        using length_dropWhile_le [of is_space z] length_dropWhile_le [of is_space y]
        by (simp add: y z w_def [symmetric])
      ultimately show ?thesis
        using hb d1 d2 sw True unfolding mod_form_def t_def [symmetric] by simp
    qed
  qed
qed

lemma form_sub_append:
  assumes "\<And>p v. v \<noteq> [] \<Longrightarrow> m p (v @ t) = m p v"
    and "\<And>p v n gs. m p v = Some (n, gs) \<Longrightarrow> n \<le> length v"
  shows "form_sub m R prev (pre @ t)
     = form_sub m R prev pre @ form_sub m R (if pre = [] then prev else Some (last pre)) t"
  unfolding form_sub_def using assms by (rule sub_from_append)

lemma passC:
  assumes "\<not> startswith (dropWhile is_space rest) ''StoryarnWeb.Gettext,''"
  shows "form_sub RE_MOD_GETTEXT R q (''Gettext.gettext('' @ rest)
     = ''Gettext.gettext('' @ form_sub RE_MOD_GETTEXT R None rest"
proof -
  have "form_sub RE_MOD_GETTEXT R q (''Gettext.gettext('' @ rest)
     = ''Gettext.gettext('' @ form_sub RE_MOD_GETTEXT R (Some (CHR ''('')) rest"
    using assms by (simp add: form_sub_def RE_MOD_GETTEXT_def mod_form_def)
  then show ?thesis
    using form_sub_mod_prev_cong [of "Some (CHR ''('')" None]
    by (simp add: RE_MOD_GETTEXT_def)
qed

lemma passD:
  "form_sub RE_MOD_NGETTEXT R q (''Gettext.gettext('' @ rest)
     = ''Gettext.gettext('' @ form_sub RE_MOD_NGETTEXT R None rest"
proof -
  have "form_sub RE_MOD_NGETTEXT R q (''Gettext.gettext('' @ rest)
     = ''Gettext.gettext('' @ form_sub RE_MOD_NGETTEXT R (Some (CHR ''('')) rest"
    by (simp add: form_sub_def RE_MOD_NGETTEXT_def mod_form_def)
  then show ?thesis
    using form_sub_mod_prev_cong [of "Some (CHR ''('')" None]
    by (simp add: RE_MOD_NGETTEXT_def)
qed

lemma passA:
  "form_sub (bare ''gettext('') R q (''Gettext.gettext('' @ rest)
     = ''Gettext.'' @ R @ form_sub (bare ''gettext('') R None rest"
proof -
  have "form_sub (bare ''gettext('') R q (''Gettext.gettext('' @ rest)
     = ''Gettext.'' @ R @ form_sub (bare ''gettext('') R (Some (CHR ''('')) rest"
    by (simp add: form_sub_bare_Cons)
  then show ?thesis
    using form_sub_bare_prev_cong [of "Some (CHR ''('')" None] by simp
qed

lemma passB:
  assumes "CHR ''('' \<notin> set d"
  shows \<open>form_sub (bare ''ngettext('') R q (''Gettext.'' @ (''dgettext("'' @ d @ ''", '') @ rest)
     = ''Gettext.'' @ (''dgettext("'' @ d @ ''", '') @ form_sub (bare ''ngettext('') R None rest\<close>
proof -
  have "nomatch (bare ''ngettext('') (Some QUOTE) (d @ QUOTE # CHR '','' # CHR '' '' # [])"
    by (rule nomatch_bare_label) (use assms in simp_all)
  then have \<open>nomatch (bare ''ngettext('') q ((''Gettext.dgettext("'' @ d @ ''",'') @ [CHR '' ''])\<close>
    by (simp add: bare_def)
  then have \<open>form_sub (bare ''ngettext('') R q ((''Gettext.dgettext("'' @ d @ ''",'') @ CHR '' '' # rest)
     = (''Gettext.dgettext("'' @ d @ ''",'') @ CHR '' '' # form_sub (bare ''ngettext('') R (Some (CHR '' '')) rest\<close>
    by (rule form_sub_bare_prefix) simp_all
  then show ?thesis
    using form_sub_bare_prev_cong [of "Some (CHR '' '')" None] by simp
qed

text \<open>The four substitutions on a text with a call \<^verbatim>\<open>Gettext.gettext(\<close> in it.\<close>

lemma callC:
  assumes "\<not> startswith (dropWhile is_space rest) ''StoryarnWeb.Gettext,''"
  shows "form_sub RE_MOD_GETTEXT R None (pre @ ''Gettext.gettext('' @ rest)
     = form_sub RE_MOD_GETTEXT R None pre @ ''Gettext.gettext('' @ form_sub RE_MOD_GETTEXT R None rest"
proof -
  have "form_sub RE_MOD_GETTEXT R None (pre @ ''Gettext.gettext('' @ rest)
     = form_sub RE_MOD_GETTEXT R None pre
        @ form_sub RE_MOD_GETTEXT R (if pre = [] then None else Some (last pre))
            (''Gettext.gettext('' @ rest)"
    unfolding RE_MOD_GETTEXT_def
  proof (rule form_sub_append)
    fix p and v :: string
    assume "v \<noteq> []"
    then show "mod_form ''Gettext.gettext('' p (v @ ''Gettext.gettext('' @ rest)
        = mod_form ''Gettext.gettext('' p v"
      by (rule mod_form_append [rotated]) simp
  qed (rule mod_form_length)
  then show ?thesis
    by (simp only: passC [OF assms])
qed

lemma callD:
  "form_sub RE_MOD_NGETTEXT R None (pre @ ''Gettext.gettext('' @ rest)
     = form_sub RE_MOD_NGETTEXT R None pre @ ''Gettext.gettext('' @ form_sub RE_MOD_NGETTEXT R None rest"
proof -
  have "form_sub RE_MOD_NGETTEXT R None (pre @ ''Gettext.gettext('' @ rest)
     = form_sub RE_MOD_NGETTEXT R None pre
        @ form_sub RE_MOD_NGETTEXT R (if pre = [] then None else Some (last pre))
            (''Gettext.gettext('' @ rest)"
    unfolding RE_MOD_NGETTEXT_def
  proof (rule form_sub_append)
    fix p and v :: string
    assume "v \<noteq> []"
    then show "mod_form ''Gettext.ngettext('' p (v @ ''Gettext.gettext('' @ rest)
        = mod_form ''Gettext.ngettext('' p v"
      by (rule mod_form_append [rotated]) simp
  qed (rule mod_form_length)
  then show ?thesis
    by (simp only: passD)
qed

lemma callA:
  "form_sub (bare ''gettext('') R None (pre @ ''Gettext.gettext('' @ rest)
     = form_sub (bare ''gettext('') R None pre @ ''Gettext.'' @ R
         @ form_sub (bare ''gettext('') R None rest"
proof -
  have "form_sub (bare ''gettext('') R None (pre @ ''Gettext.gettext('' @ rest)
     = form_sub (bare ''gettext('') R None pre
        @ form_sub (bare ''gettext('') R (if pre = [] then None else Some (last pre))
            (''Gettext.gettext('' @ rest)"
  proof (rule form_sub_append)
    fix p and v :: string
    show "bare ''gettext('' p (v @ ''Gettext.gettext('' @ rest) = bare ''gettext('' p v"
      by (rule bare_append) simp_all
  qed (rule bare_length)
  then show ?thesis
    by (simp only: passA)
qed

lemma callB:
  assumes "CHR ''('' \<notin> set d"
  shows \<open>form_sub (bare ''ngettext('') R None
            (pre @ ''Gettext.'' @ (''dgettext("'' @ d @ ''", '') @ rest)
     = form_sub (bare ''ngettext('') R None pre @ ''Gettext.'' @ (''dgettext("'' @ d @ ''", '')
         @ form_sub (bare ''ngettext('') R None rest\<close>
proof -
  have \<open>form_sub (bare ''ngettext('') R None
            (pre @ ''Gettext.'' @ (''dgettext("'' @ d @ ''", '') @ rest)
     = form_sub (bare ''ngettext('') R None pre
        @ form_sub (bare ''ngettext('') R (if pre = [] then None else Some (last pre))
            (''Gettext.'' @ (''dgettext("'' @ d @ ''", '') @ rest)\<close>
  proof (rule form_sub_append)
    fix p and v :: string
    show \<open>bare ''ngettext('' p (v @ ''Gettext.'' @ (''dgettext("'' @ d @ ''", '') @ rest)
        = bare ''ngettext('' p v\<close>
      by (rule bare_append) simp_all
  qed (rule bare_length)
  then show ?thesis
    by (simp only: passB [OF assms])
qed
section \<open>Filling a block: lemmas\<close>

lemma join_split_nl [simp]: "join_nl (split_nl s) = s"
proof (induction s)
  case Nil
  show ?case by simp
next
  case (Cons c cs)
  then show ?case
    by (cases "split_nl cs"; cases "tl (split_nl cs)") (auto split: list.splits)
qed

lemma split_nl_not_Nil [simp]: "split_nl s \<noteq> []"
  by (induction s) (auto split: list.splits)

lemma split_nl_no_NL: "l \<in> set (split_nl s) \<Longrightarrow> NL \<notin> set l"
  by (induction s arbitrary: l) (auto split: list.splits if_splits)

lemma line_start_simps [simp]: "line_start None" "line_start (Some c) \<longleftrightarrow> c = NL"
  by (simp_all add: line_start_def)

lemma sub_inside_line_NL:
  "\<not> line_start prev \<Longrightarrow> NL \<notin> set l \<Longrightarrow>
   sub_from (exact_line ln gs) rep prev (l @ NL # t)
     = l @ NL # sub_from (exact_line ln gs) rep (Some NL) t"
  by (induction l arbitrary: prev) (auto simp: exact_line_def)

lemma sub_inside_line_end:
  "\<not> line_start prev \<Longrightarrow> NL \<notin> set l \<Longrightarrow> sub_from (exact_line ln gs) rep prev l = l"
  by (induction l arbitrary: prev) (auto simp: exact_line_def)

lemma exact_line_hit:
  assumes "line_start prev" "ln \<noteq> []" "line_end t"
  shows "exact_line ln gs prev (ln @ t) = Some (length ln, gs)"
  using assms by (simp add: exact_line_def)

lemma exact_line_miss:
  assumes "NL \<notin> set l" "NL \<notin> set ln" "l \<noteq> ln" "line_end t"
  shows "exact_line ln gs prev (l @ t) = None"
proof (rule ccontr)
  assume "exact_line ln gs prev (l @ t) \<noteq> None"
  then have st: "startswith (l @ t) ln" and le: "line_end (drop (length ln) (l @ t))"
    by (auto simp: exact_line_def split: if_splits)
  have "\<exists>zs. l = ln @ zs"
  proof (cases t)
    case Nil
    then show ?thesis using st by (simp add: startswith_append_iff)
  next
    case (Cons q r)
    then have "q = NL" using assms(4) by (simp add: line_end_def)
    then show ?thesis
      using startswith_barrier [of l NL r ln] st assms(2) Cons by simp
  qed
  then obtain zs where l: "l = ln @ zs" by blast
  have "zs \<noteq> []" using l assms(3) by auto
  then obtain z zs' where zs: "zs = z # zs'" by (cases zs) auto
  have "z \<noteq> NL" using assms(1) l zs by auto
  then show False
    using le by (simp add: l zs line_end_def)
qed

lemma line_end_simps [simp]: "line_end []" "line_end (c # t) \<longleftrightarrow> c = NL"
  by (simp_all add: line_end_def)

lemma sub_from_exact_hit:
  assumes "line_start prev" "ln \<noteq> []" "line_end t"
  shows "sub_from (exact_line ln gs) rep prev (ln @ t)
     = rep ln gs @ sub_from (exact_line ln gs) rep (Some (last ln)) t"
proof -
  obtain c cs where ln: "ln = c # cs" using assms(2) by (cases ln) auto
  have m: "exact_line ln gs prev (c # cs @ t) = Some (length ln, gs)"
    using exact_line_hit [OF assms] by (simp add: ln)
  have "(c # cs @ t) ! (length ln - 1) = last ln"
    by (simp add: ln nth_append last_conv_nth nth_Cons')
  moreover have "take (length ln) (c # cs @ t) = ln" "drop (length ln) (c # cs @ t) = t"
    by (simp_all add: ln)
  ultimately show ?thesis
    using m by (simp add: ln del: nth_Cons_numeral)
qed

lemma sub_line_NL:
  assumes "ln \<noteq> []" "NL \<notin> set ln" "line_start prev" "NL \<notin> set l"
  shows "sub_from (exact_line ln gs) rep prev (l @ NL # t)
     = (if l = ln then rep ln gs else l) @ NL # sub_from (exact_line ln gs) rep (Some NL) t"
proof (cases "l = ln")
  case True
  have "last ln \<noteq> NL" using assms(1,2) by (metis last_in_set)
  then have "sub_from (exact_line ln gs) rep (Some (last ln)) ([] @ NL # t)
      = [] @ NL # sub_from (exact_line ln gs) rep (Some NL) t"
    using assms by (intro sub_inside_line_NL) simp_all
  then show ?thesis
    using sub_from_exact_hit [of prev ln "NL # t" gs rep] assms True by simp
next
  case False
  have m: "exact_line ln gs prev (l @ NL # t) = None"
    using exact_line_miss [of l ln "NL # t"] assms False by simp
  show ?thesis
  proof (cases l)
    case Nil
    then show ?thesis using m False by simp
  next
    case (Cons c l')
    then have "sub_from (exact_line ln gs) rep (Some c) (l' @ NL # t)
        = l' @ NL # sub_from (exact_line ln gs) rep (Some NL) t"
      using assms(4) by (intro sub_inside_line_NL) auto
    then show ?thesis
      using m False by (simp add: Cons)
  qed
qed

lemma sub_line_end:
  assumes "ln \<noteq> []" "NL \<notin> set ln" "line_start prev" "NL \<notin> set l"
  shows "sub_from (exact_line ln gs) rep prev l = (if l = ln then rep ln gs else l)"
proof (cases "l = ln")
  case True
  then show ?thesis
    using sub_from_exact_hit [of prev ln "[]" gs rep] assms by simp
next
  case False
  have m: "exact_line ln gs prev (l @ []) = None"
    using exact_line_miss [of l ln "[]"] assms False by simp
  show ?thesis
  proof (cases l)
    case Nil
    then show ?thesis using False by simp
  next
    case (Cons c l')
    then have "sub_from (exact_line ln gs) rep (Some c) l' = l'"
      using assms(4) by (intro sub_inside_line_end) auto
    then show ?thesis
      using m False by (simp add: Cons)
  qed
qed

lemma sub_exact_lines:
  assumes "ln \<noteq> []" "NL \<notin> set ln"
  shows "line_start prev \<Longrightarrow> ls \<noteq> [] \<Longrightarrow> (\<forall>l\<in>set ls. NL \<notin> set l) \<Longrightarrow>
    sub_from (exact_line ln gs) rep prev (join_nl ls)
      = join_nl (map (\<lambda>l. if l = ln then rep ln gs else l) ls)"
proof (induction ls arbitrary: prev)
  case Nil
  then show ?case by simp
next
  case (Cons l ls)
  show ?case
  proof (cases ls)
    case Nil
    then show ?thesis
      using sub_line_end [OF assms Cons.prems(1), of l] Cons.prems by simp
  next
    case ls: (Cons l2 ls2)
    have "sub_from (exact_line ln gs) rep (Some NL) (join_nl ls)
        = join_nl (map (\<lambda>l. if l = ln then rep ln gs else l) ls)"
      using Cons.IH [of "Some NL"] Cons.prems ls by simp
    then show ?thesis
      using sub_line_NL [OF assms Cons.prems(1), of l] Cons.prems by (simp add: ls)
  qed
qed

text \<open>Substituting for whole lines changes these lines and no other.\<close>

lemma sub_exact_line_text:
  assumes "ln \<noteq> []" "NL \<notin> set ln"
  shows "sub_from (exact_line ln gs) rep None s
      = join_nl (map (\<lambda>l. if l = ln then rep ln gs else l) (split_nl s))"
  using sub_exact_lines [OF assms, of None "split_nl s" gs rep] split_nl_no_NL [of _ s]
  by simp


lemma sub_exact_line_text_eq:
  assumes "ln \<noteq> []" "NL \<notin> set ln" "rep ln gs = R"
  shows "sub_from (exact_line ln gs) rep None s
      = join_nl (map (\<lambda>l. if l = ln then R else l) (split_nl s))"
  unfolding assms(3) [symmetric] by (rule sub_exact_line_text [OF assms(1,2)])

lemma escape_Nil: "escape [] = []"
  by (simp add: escape_concat)

lemma escape_Cons: "escape (c # cs) = esc_char c @ escape cs"
  by (simp add: escape_concat)

lemma expand_lits_append: "expand (map Lit xs @ ps) w gs = xs @ expand ps w gs"
  by (induction xs) auto

lemma quote_only_Nil [simp]: "quote_only [] = []"
  by (simp add: quote_only_def)

lemma quote_only_Cons:
  "quote_only (c # t) = (if c = QUOTE then [BSLASH, QUOTE] else [c]) @ quote_only t"
  by (simp add: quote_only_def)

lemma lit_Inr [simp]: "lit c (Inr ps) = Inr (Lit c # ps)"
  by (simp add: lit_def)

lemma lit_Inl [simp]: "lit c (Inl e) = Inl e"
  by (simp add: lit_def)

text \<open>The template compiler reads an escaped text back: the doubled backslash becomes one
  backslash, backslash-n a newline; backslash-quote stays.\<close>

lemma parse_template_escape:
  "parse_template g (escape t @ rest)
     = (case parse_template g rest of
          Inl e \<Rightarrow> Inl e
        | Inr ps \<Rightarrow> Inr (map Lit (quote_only t) @ ps))"
proof (induction t)
  case Nil
  show ?case by (simp add: escape_Nil split: sum.splits)
next
  case (Cons c t)
  have e: "esc_char c =
     (if c = BSLASH then [BSLASH, BSLASH]
      else if c = QUOTE then [BSLASH, QUOTE]
      else if c = NL then [BSLASH, CHR ''n'']
      else [c])"
    by (simp add: esc_char_def)
  show ?case
    using Cons.IH
    by (cases "parse_template g rest")
      (simp_all add: escape_Cons e quote_only_Cons is_digit_def is_ascii_letter_def)
qed

lemma expand_lits_fun: "expand (map Lit t) = (\<lambda>w gs. t)"
  by (intro ext) (rule expand_lits)

lemma re_sub_simple:
  \<open>re_sub (exact_line ''msgstr ""'' []) 0 (''msgstr "'' @ escape t @ [QUOTE]) block
     = Inr (join_nl (map (\<lambda>l. if l = ''msgstr ""'' then ''msgstr "'' @ quote_only t @ [QUOTE] else l)
              (split_nl block)))\<close>
proof -
  have p: \<open>parse_template 0 (''msgstr "'' @ escape t @ [QUOTE])
      = Inr (map Lit (''msgstr "'' @ quote_only t @ [QUOTE]))\<close>
    by (simp add: parse_template_escape)
  show ?thesis
    apply (simp only: re_sub_def p sum.case)
    apply (rule arg_cong [where f = Inr])
    apply (rule sub_exact_line_text_eq)
      apply (simp_all add: expand_lits_append)
    done
qed

lemma re_sub_plural:
  \<open>re_sub (exact_line ''msgstr[0] ""'' [''msgstr[0] '']) 1
       ([BSLASH, CHR ''1'', QUOTE] @ escape t @ [QUOTE]) block
     = Inr (join_nl (map (\<lambda>l. if l = ''msgstr[0] ""'' then ''msgstr[0] "'' @ quote_only t @ [QUOTE] else l)
              (split_nl block)))\<close>
proof -
  have p: \<open>parse_template 1 ([BSLASH, CHR ''1'', QUOTE] @ escape t @ [QUOTE])
      = Inr (Group 1 # map Lit (QUOTE # quote_only t @ [QUOTE]))\<close>
    by (simp add: parse_template_escape is_digit_def groupref_def digit_val_def)
  show ?thesis
    apply (simp only: re_sub_def p sum.case)
    apply (rule arg_cong [where f = Inr])
    apply (rule sub_exact_line_text_eq)
      apply (simp_all add: expand_lits_append)
    done
qed

lemma map_lines_id: "join_nl (map (\<lambda>l. if l = d then d else l) (split_nl s)) = s"
proof -
  have "(\<lambda>l. if l = d then d else l) = (\<lambda>l. l)" by auto
  then show ?thesis by simp
qed

text \<open>The results of \<open>fill_block\<close>: the block as it is, or the block with every line that is
  exactly the empty declaration replaced.\<close>

lemma fill_block_result:
  \<open>fill_block block tr = Inr (block, 0, 0) \<or> fill_block block tr = Inr (block, 0, 1)
   \<or> (\<exists>k. fill_key block = Some k \<and> dict_get tr k [] \<noteq> []
        \<and> (fill_block block tr
               = Inr (join_nl (map (\<lambda>l. if l = ''msgstr ""''
                                          then ''msgstr "'' @ quote_only (dict_get tr k []) @ [QUOTE]
                                          else l) (split_nl block)), 1, 1)
           \<or> fill_block block tr
               = Inr (join_nl (map (\<lambda>l. if l = ''msgstr[0] ""''
                                          then ''msgstr[0] "'' @ quote_only (dict_get tr k []) @ [QUOTE]
                                          else l) (split_nl block)), 1, 1)))\<close>
  unfolding fill_block_def fill_key_def re_sub_simple re_sub_plural
  by (simp split: option.splits prod.splits)

lemma fill_block_no_translation:
  assumes "case fill_key block of None \<Rightarrow> True | Some k \<Rightarrow> dict_get tr k [] = []"
  shows "fill_block block tr = Inr (block, 0, 0) \<or> fill_block block tr = Inr (block, 0, 1)"
  using assms unfolding fill_block_def fill_key_def
  by (auto split: option.splits prod.splits)

lemma lines_kept_intro:
  "decl = A \<or> decl = B \<Longrightarrow>
   \<exists>decl r. (decl = A \<or> decl = B)
      \<and> join_nl (map (\<lambda>l. if l = decl then R else l) (split_nl s))
          = join_nl (map (\<lambda>l. if l = decl then r else l) (split_nl s))"
  by blast

lemma lines_kept_id:
  "\<exists>decl r. (decl = A \<or> decl = B)
      \<and> s = join_nl (map (\<lambda>l. if l = decl then r else l) (split_nl s))"
proof -
  have "s = join_nl (map (\<lambda>l. if l = A then A else l) (split_nl s))"
    by (simp only: map_lines_id)
  then show ?thesis by blast
qed


text \<open>
  What \<open>fill_block\<close> does to the physical lines of a block: it returns, and the new block is
  the old one with, at most, the lines that are exactly \<^verbatim>\<open>msgstr ""\<close> (or, for a plural
  block, \<^verbatim>\<open>msgstr[0] ""\<close>) replaced; with no translation, or the empty one, under the key
  the block is looked up by, the block is returned as it is and nothing is counted as
  filled.
\<close>

lemma fill_block_line_frame:
  \<open>\<exists>new_block filled total.
      fill_block block translations = Inr (new_block, filled, total)
      \<and> (\<exists>decl r. (decl = ''msgstr ""'' \<or> decl = ''msgstr[0] ""'')
             \<and> new_block = join_nl (map (\<lambda>l. if l = decl then r else l) (split_nl block)))
      \<and> ((case fill_key block of None \<Rightarrow> True | Some k \<Rightarrow> dict_get translations k [] = [])
             \<longrightarrow> new_block = block \<and> filled = 0)\<close>
proof -
  note kept = lines_kept_id [of \<open>''msgstr ""''\<close> \<open>''msgstr[0] ""''\<close> block]
  show ?thesis
    using fill_block_result [of block "translations"]
  proof (elim disjE exE conjE)
    assume "fill_block block translations = Inr (block, 0, 0)"
    then show ?thesis using kept by simp
  next
    assume "fill_block block translations = Inr (block, 0, 1)"
    then show ?thesis using kept by simp
  next
    fix k
    assume k: "fill_key block = Some k" "dict_get translations k [] \<noteq> []"
      and r: \<open>fill_block block translations
               = Inr (join_nl (map (\<lambda>l. if l = ''msgstr ""''
                                          then ''msgstr "'' @ quote_only (dict_get translations k []) @ [QUOTE]
                                          else l) (split_nl block)), 1, 1)\<close>
    show ?thesis
      unfolding r using k by (simp only: sum.inject prod.inject simp_thms option.case) blast
  next
    fix k
    assume k: "fill_key block = Some k" "dict_get translations k [] \<noteq> []"
      and r: \<open>fill_block block translations
               = Inr (join_nl (map (\<lambda>l. if l = ''msgstr[0] ""''
                                          then ''msgstr[0] "'' @ quote_only (dict_get translations k []) @ [QUOTE]
                                          else l) (split_nl block)), 1, 1)\<close>
    show ?thesis
      unfolding r using k by (simp only: sum.inject prod.inject simp_thms option.case) blast
  qed
qed
section \<open>Parsing and the verifier: lemmas\<close>



lemma store_entry_distinct:
  "distinct (map fst table) \<Longrightarrow> distinct (map fst (store_entry st table))"
  by (auto simp: store_entry_def distinct_update split: option.splits)







lemma parse_po_entries_blocks_distinct:
  "parse_po_entries_blocks table bs = Inr t' \<Longrightarrow> distinct (map fst table) \<Longrightarrow>
   distinct (map fst t')"
proof (induction bs arbitrary: table)
  case Nil
  then show ?case by simp
next
  case (Cons b bs)
  then obtain st where st: "scan_po_entries scan_init (splitlines (str_strip b)) = Inr st"
      "parse_po_entries_blocks (store_entry st table) bs = Inr t'"
    by (auto split: sum.splits)
  show ?case
    using Cons.IH [OF st(2)] store_entry_distinct [OF Cons.prems(2)] by blast
qed

lemma parse_po_entries_distinct:
  "parse_po_entries content = Inr t \<Longrightarrow> distinct (map fst t)"
  unfolding parse_po_entries_def by (erule parse_po_entries_blocks_distinct) simp


lemma merge_files_tables:
  "map (\<lambda>(f, c). parse_po_entries c) files = map Inr tables \<Longrightarrow>
   merge_files files agg = Inr (merge_tables tables agg)"
proof (induction files arbitrary: tables agg)
  case Nil
  then show ?case by simp
next
  case (Cons fc files)
  obtain f c where fc: "fc = (f, c)" by (cases fc)
  from Cons.prems obtain t ts where ts: "tables = t # ts" "parse_po_entries c = Inr t"
      "map (\<lambda>(f, c). parse_po_entries c) files = map Inr ts"
    by (cases tables) (auto simp: fc)
  show ?case
    using Cons.IH [OF ts(3)] by (simp add: fc ts)
qed

lemma parsed_tables_distinct:
  "map (\<lambda>(f, c). parse_po_entries c) files = map Inr tables \<Longrightarrow>
   \<forall>t\<in>set tables. distinct (map fst t)"
proof (induction files arbitrary: tables)
  case Nil
  then show ?case by simp
next
  case (Cons fc files)
  obtain f c where fc: "fc = (f, c)" by (cases fc)
  from Cons.prems obtain t ts where ts: "tables = t # ts" "parse_po_entries c = Inr t"
      "map (\<lambda>(f, c). parse_po_entries c) files = map Inr ts"
    by (cases tables) (auto simp: fc)
  show ?case
    using Cons.IH [OF ts(3)] parse_po_entries_distinct [OF ts(2)] by (simp add: ts)
qed

lemma merge_entries_present:
  "snd (merge_entries es agg) = snd agg \<union> fst ` set es"
  by (induction es agg rule: merge_entries.induct) auto

lemma merge_entries_translated:
  "distinct (map fst es) \<Longrightarrow>
   map_of (fst (merge_entries es agg)) k
     = (case map_of (fst agg) k of
          Some v \<Rightarrow> Some v
        | None \<Rightarrow> if has_translation es k then map_of es k else None)"
proof (induction es agg rule: merge_entries.induct)
  case (1 all_translated all_present)
  show ?case by (simp add: has_translation_def split: option.splits)
next
  case (2 key val entries all_translated all_present)
  have nk: "map_of entries key = None"
    using "2.prems" by (simp add: map_of_eq_None_iff)
  show ?case
    using "2.IH" "2.prems" nk
    by (auto simp: has_translation_def update_conv' split: option.splits)
qed

lemma merge_tables_present:
  "snd (merge_tables ts agg) = snd agg \<union> (\<Union>t\<in>set ts. fst ` set t)"
  by (induction ts arbitrary: agg) (auto simp: merge_entries_present)

lemma merge_tables_translated:
  "\<forall>t\<in>set ts. distinct (map fst t) \<Longrightarrow>
   map_of (fst (merge_tables ts agg)) k
     = (case map_of (fst agg) k of
          Some v \<Rightarrow> Some v
        | None \<Rightarrow> (case find (\<lambda>t. has_translation t k) ts of
                     None \<Rightarrow> None | Some t \<Rightarrow> map_of t k))"
proof (induction ts arbitrary: agg)
  case Nil
  then show ?case by (simp split: option.splits)
next
  case (Cons t ts)
  show ?case
    using Cons.IH [of "merge_entries t agg"] Cons.prems
    by (auto simp: merge_entries_translated has_translation_def split: option.splits)
qed

lemma find_has_translation:
  "(case find (\<lambda>t. has_translation t k) ts of None \<Rightarrow> None | Some t \<Rightarrow> map_of t k) = Some v
     \<Longrightarrow> v \<noteq> []"
  by (auto simp: find_Some_iff has_translation_def split: option.splits)




section \<open>Escaping: where the round trip fails\<close>

lemma count_list_replace_from:
  "q \<notin> set old \<Longrightarrow> q \<notin> set new \<Longrightarrow>
   count_list (replace_from old new s) q = count_list s q"
proof (induction s rule: length_induct)
  case (1 s)
  show ?case
  proof (cases s)
    case Nil
    then show ?thesis by simp
  next
    case (Cons c cs)
    show ?thesis
    proof (cases "old \<noteq> [] \<and> startswith (c # cs) old")
      case True
      then obtain r where r: "c # cs = old @ r"
        using startswith_append_iff by blast
      have "length r < length s"
        using True by (simp add: Cons r)
      then have "count_list (replace_from old new r) q = count_list r q"
        using "1.IH" "1.prems" by blast
      moreover have "drop (length old) (c # cs) = r"
        by (simp add: r)
      then have "replace_from old new (c # cs) = new @ replace_from old new r"
        using True by (simp add: replace_from.simps(2) del: drop_Suc_Cons)
      moreover have "count_list (c # cs) q = count_list r q"
        using "1.prems" by (simp only: r) simp
      ultimately show ?thesis
        using "1.prems" by (simp only: Cons) simp
    next
      case False
      have "count_list (replace_from old new cs) q = count_list cs q"
        using "1.IH" "1.prems" by (simp add: Cons)
      then show ?thesis
        using False by (auto simp: Cons replace_from.simps(2))
    qed
  qed
qed

lemma has_backslash_n_count: "has_backslash_n s \<longleftrightarrow> 0 < backslash_n_count s"
  by (induction s rule: has_backslash_n.induct) auto

lemma pass1_count:
  "count_list (replace_from [BSLASH, CHR ''n''] [NL] (concat (map esc_char s))) (CHR ''n'')
       + backslash_n_count s = count_list s (CHR ''n'')
   \<and> count_list (replace_from [BSLASH, CHR ''n''] [NL] (BSLASH # concat (map esc_char s))) (CHR ''n'')
       + backslash_n_count s + (if s \<noteq> [] \<and> hd s = CHR ''n'' then 1 else 0)
       = count_list s (CHR ''n'')"
proof (induction s)
  case Nil
  show ?case by (simp add: replace_from_pair)
next
  case (Cons c cs)
  have e: "esc_char c =
     (if c = BSLASH then [BSLASH, BSLASH]
      else if c = QUOTE then [BSLASH, QUOTE]
      else if c = NL then [BSLASH, CHR ''n'']
      else [c])"
    by (simp add: esc_char_def)
  have b: "backslash_n_count (c # cs)
      = (if c = BSLASH \<and> cs \<noteq> [] \<and> hd cs = CHR ''n'' then 1 else 0) + backslash_n_count cs"
    by (cases cs) auto
  show ?case
    using Cons.IH by (auto simp: e b replace_from_pair)
qed

lemma unescape_escape_count:
  "count_list (unescape (escape s)) (CHR ''n'') + backslash_n_count s = count_list s (CHR ''n'')"
  using pass1_count [of s]
  by (simp add: unescape_def str_replace_def escape_concat count_list_replace_from)

lemma unescape_escape_changes:
  assumes "has_backslash_n s"
  shows "unescape (escape s) \<noteq> s"
proof
  assume "unescape (escape s) = s"
  then have "backslash_n_count s = 0"
    using unescape_escape_count [of s] by simp
  then show False
    using assms by (simp add: has_backslash_n_count)
qed

section \<open>Header blocks: lemmas\<close>




lemma unescape_Nil [simp]: "unescape [] = []"
  by (simp add: unescape_def str_replace_def)


















section \<open>Claims\<close>

text \<open>
  C1 (as amended). \<open>escape\<close> and \<open>unescape\<close> are not inverse to each other on every
  string. What holds: \<open>unescape (escape x) = x\<close> exactly for the strings \<open>x\<close> in which no
  backslash is immediately followed by the letter n; and for these
  \<open>escape (unescape y) = y\<close> for the escaped form \<open>y = escape x\<close>.
\<close>

theorem unescape_escape_roundtrip:
  "(unescape (escape x) = x \<longleftrightarrow> \<not> has_backslash_n x)
   \<and> (\<not> has_backslash_n x \<longrightarrow> escape (unescape (escape x)) = escape x)"
  using unescape_escape [of x] unescape_escape_changes [of x] by auto

theorem unescape_escape_roundtrip_witness:
  "\<not> has_backslash_n [CHR ''a'', BSLASH, QUOTE, NL, CHR ''n'', BSLASH]
   \<and> escape [CHR ''a'', BSLASH, QUOTE, NL, CHR ''n'', BSLASH]
       = [CHR ''a'', BSLASH, BSLASH, BSLASH, QUOTE, BSLASH, CHR ''n'', CHR ''n'', BSLASH, BSLASH]
   \<and> unescape (escape [CHR ''a'', BSLASH, QUOTE, NL, CHR ''n'', BSLASH])
       = [CHR ''a'', BSLASH, QUOTE, NL, CHR ''n'', BSLASH]
   \<and> escape (unescape (escape [CHR ''a'', BSLASH, QUOTE, NL, CHR ''n'', BSLASH]))
       = escape [CHR ''a'', BSLASH, QUOTE, NL, CHR ''n'', BSLASH]"
  using unescape_escape_roundtrip [of "[CHR ''a'', BSLASH, QUOTE, NL, CHR ''n'', BSLASH]"]
  by (simp add: escape_concat esc_char_def)

text \<open>
  C1, counterexample. As stated the claim fails in both directions: a lone quote is not
  restored by \<open>escape \<circ> unescape\<close>, and backslash-n is not restored by
  \<open>unescape \<circ> escape\<close>.
\<close>

theorem escape_unescape_counterexample:
  "unescape [QUOTE] = [QUOTE] \<and> escape (unescape [QUOTE]) = [BSLASH, QUOTE]
   \<and> escape (unescape [QUOTE]) \<noteq> [QUOTE]
   \<and> escape [BSLASH, CHR ''n''] = [BSLASH, BSLASH, CHR ''n'']
   \<and> unescape (escape [BSLASH, CHR ''n'']) = [BSLASH, NL]
   \<and> unescape (escape [BSLASH, CHR ''n'']) \<noteq> [BSLASH, CHR ''n'']"
  by (simp add: unescape_def escape_def str_replace_def startswith_def replace_from.simps(2))

text \<open>
  C2 (as amended). In the verifier's aggregate view, built from the tables of the current
  files taken in sorted order of their names, the value of a key is the value in the
  first file that has a non-empty value for it: a later file's value does not overwrite
  it. (\<open>tables\<close> are the tables the files parse to, in that order.)
\<close>

theorem verifier_first_file_wins:
  assumes "map (\<lambda>(f, c). parse_po_entries c) (po_files listing) = map Inr tables"
  shows "\<exists>all_translated all_present.
     merge_files (po_files listing) ([], {}) = Inr (all_translated, all_present)
     \<and> (\<forall>k. map_of all_translated k
           = (case find (\<lambda>t. has_translation t k) tables of
                None \<Rightarrow> None | Some t \<Rightarrow> map_of t k))"
proof -
  have d: "\<forall>t\<in>set tables. distinct (map fst t)"
    using parsed_tables_distinct [OF assms] .
  have "merge_files (po_files listing) ([], {})
      = Inr (fst (merge_tables tables ([], {})), snd (merge_tables tables ([], {})))"
    using merge_files_tables [OF assms] by simp
  moreover have "\<forall>k. map_of (fst (merge_tables tables ([], {}))) k
           = (case find (\<lambda>t. has_translation t k) tables of
                None \<Rightarrow> None | Some t \<Rightarrow> map_of t k)"
    using merge_tables_translated [OF d, of "([], {})"] by simp
  ultimately show ?thesis by blast
qed

theorem verifier_first_file_wins_witness:
  \<open>map (\<lambda>(f, c). parse_po_entries c)
       (po_files [(''b.po'', ''msgid "Save"'' @ [NL] @ ''msgstr "Salvar"'' @ [NL]),
                  (''default.po.bak'', ''msgid "Save"'' @ [NL] @ ''msgstr "Guardar"'' @ [NL]),
                  (''a.po'', ''msgid "Save"'' @ [NL] @ ''msgstr "Guardar"'' @ [NL])])
     = map Inr [[(Simple ''Save'', ''Guardar'')], [(Simple ''Save'', ''Salvar'')]]
   \<and> merge_files
        (po_files [(''b.po'', ''msgid "Save"'' @ [NL] @ ''msgstr "Salvar"'' @ [NL]),
                   (''default.po.bak'', ''msgid "Save"'' @ [NL] @ ''msgstr "Guardar"'' @ [NL]),
                   (''a.po'', ''msgid "Save"'' @ [NL] @ ''msgstr "Guardar"'' @ [NL])]) ([], {})
       = Inr ([(Simple ''Save'', ''Guardar'')], {Simple ''Save''})
   \<and> find (\<lambda>t. has_translation t (Simple ''Save''))
         [[(Simple ''Save'', ''Guardar'')], [(Simple ''Save'', ''Salvar'')]]
       = Some [(Simple ''Save'', ''Guardar'')]\<close>
proof -
  have e: \<open>map (\<lambda>(f, c). parse_po_entries c)
       (po_files [(''b.po'', ''msgid "Save"'' @ [NL] @ ''msgstr "Salvar"'' @ [NL]),
                  (''default.po.bak'', ''msgid "Save"'' @ [NL] @ ''msgstr "Guardar"'' @ [NL]),
                  (''a.po'', ''msgid "Save"'' @ [NL] @ ''msgstr "Guardar"'' @ [NL])])
     = map Inr [[(Simple ''Save'', ''Guardar'')], [(Simple ''Save'', ''Salvar'')]]
   \<and> merge_files
        (po_files [(''b.po'', ''msgid "Save"'' @ [NL] @ ''msgstr "Salvar"'' @ [NL]),
                   (''default.po.bak'', ''msgid "Save"'' @ [NL] @ ''msgstr "Guardar"'' @ [NL]),
                   (''a.po'', ''msgid "Save"'' @ [NL] @ ''msgstr "Guardar"'' @ [NL])]) ([], {})
       = Inr ([(Simple ''Save'', ''Guardar'')], {Simple ''Save''})
   \<and> find (\<lambda>t. has_translation t (Simple ''Save''))
         [[(Simple ''Save'', ''Guardar'')], [(Simple ''Save'', ''Salvar'')]]
       = Some [(Simple ''Save'', ''Guardar'')]\<close>
    by code_simp
  show ?thesis
    using verifier_first_file_wins
      [of \<open>[(''b.po'', ''msgid "Save"'' @ [NL] @ ''msgstr "Salvar"'' @ [NL]),
            (''default.po.bak'', ''msgid "Save"'' @ [NL] @ ''msgstr "Guardar"'' @ [NL]),
            (''a.po'', ''msgid "Save"'' @ [NL] @ ''msgstr "Guardar"'' @ [NL])]\<close>
          "[[(Simple ''Save'', ''Guardar'')], [(Simple ''Save'', ''Salvar'')]]"]
    by - (rule e)
qed

text \<open>
  C2, counterexample. As stated (the last file with a non-empty value wins) the claim fails:
  with \<^verbatim>\<open>Save\<close> translated in \<^verbatim>\<open>a.po\<close> and, differently, in \<^verbatim>\<open>b.po\<close>, the aggregate has the
  value of \<^verbatim>\<open>a.po\<close>.
\<close>

theorem verifier_last_file_counterexample:
  \<open>po_files [(''b.po'', ''msgid "Save"'' @ [NL] @ ''msgstr "Salvar"'' @ [NL]),
             (''a.po'', ''msgid "Save"'' @ [NL] @ ''msgstr "Guardar"'' @ [NL])]
     = [(''a.po'', ''msgid "Save"'' @ [NL] @ ''msgstr "Guardar"'' @ [NL]),
        (''b.po'', ''msgid "Save"'' @ [NL] @ ''msgstr "Salvar"'' @ [NL])]
   \<and> parse_po_entries (''msgid "Save"'' @ [NL] @ ''msgstr "Guardar"'' @ [NL])
       = Inr [(Simple ''Save'', ''Guardar'')]
   \<and> parse_po_entries (''msgid "Save"'' @ [NL] @ ''msgstr "Salvar"'' @ [NL])
       = Inr [(Simple ''Save'', ''Salvar'')]
   \<and> merge_files
        (po_files [(''b.po'', ''msgid "Save"'' @ [NL] @ ''msgstr "Salvar"'' @ [NL]),
                   (''a.po'', ''msgid "Save"'' @ [NL] @ ''msgstr "Guardar"'' @ [NL])]) ([], {})
       = Inr ([(Simple ''Save'', ''Guardar'')], {Simple ''Save''})
   \<and> ''Guardar'' \<noteq> ''Salvar''\<close>
  by code_simp

text \<open>
  C3, evaluated. The claim says that the line written is \<^verbatim>\<open>msgstr "E"\<close> with \<open>E\<close> the escaped
  translation. \<open>fill_block\<close> passes \<^verbatim>\<open>msgstr "E"\<close> to \<^verbatim>\<open>re.sub\<close> as the replacement, and
  \<^verbatim>\<open>re.sub\<close> reads its replacement as a template: backslash-n in it is a newline again and
  the doubled backslash one backslash. For the translation \<^verbatim>\<open>x\<close>, newline, \<^verbatim>\<open>y\<close> the line
  written is \<^verbatim>\<open>msgstr "x\<close>, newline, \<^verbatim>\<open>y"\<close>, not \<^verbatim>\<open>msgstr "x\ny"\<close>; for a backslash b the
  line written has one backslash, not two.
\<close>

theorem fill_block_writes_unescaped:
  \<open>escape (''x'' @ [NL] @ ''y'') = ''x'' @ [BSLASH, CHR ''n''] @ ''y''
   \<and> fill_block (''msgid "a"'' @ [NL] @ ''msgstr ""'') [(Simple ''a'', ''x'' @ [NL] @ ''y'')]
       = Inr (''msgid "a"'' @ [NL] @ ''msgstr "x'' @ [NL] @ ''y"'', 1, 1)
   \<and> escape [BSLASH, CHR ''b''] = [BSLASH, BSLASH, CHR ''b'']
   \<and> fill_block (''msgid "a"'' @ [NL] @ ''msgstr ""'') [(Simple ''a'', [BSLASH, CHR ''b''])]
       = Inr (''msgid "a"'' @ [NL] @ ''msgstr "'' @ [BSLASH, CHR ''b''] @ ''"'', 1, 1)
   \<and> fill_block (''msgid "a"'' @ [NL] @ ''msgid_plural "as"'' @ [NL] @ ''msgstr[0] ""'')
         [(Plural ''a'' ''as'', ''x'' @ [NL] @ ''y'')]
       = Inr (''msgid "a"'' @ [NL] @ ''msgid_plural "as"'' @ [NL]
               @ ''msgstr[0] "x'' @ [NL] @ ''y"'', 1, 1)\<close>
  by code_simp

text \<open>
  C4. The call rewriter's transform is idempotent: for every content \<open>c\<close> and every label
  \<open>d\<close> of the routing table, \<open>transform_content c d\<close> returns a text \<open>r\<close> that
  \<open>transform_content\<close> with the same label leaves as it is; none of the four patterns
  matches anywhere in \<open>r\<close>, so nothing the first application wrote (\<^verbatim>\<open>dgettext(\<close>,
  \<^verbatim>\<open>dngettext(\<close>, the module forms with the domain) is matched again.
\<close>

theorem transform_content_idempotent:
  assumes "d \<in> set (map snd DOMAIN_RULES)"
  shows "\<exists>r. transform_content c d = Inr r \<and> transform_content r d = Inr r
     \<and> nomatch RE_MOD_GETTEXT None r \<and> nomatch RE_MOD_NGETTEXT None r
     \<and> nomatch RE_GETTEXT None r \<and> nomatch RE_NGETTEXT None r"
  using transform_content_no_match [of d c] transform_content_fixed [of d]
    domain_labels_plain [OF assms] by blast

theorem transform_content_idempotent_witness:
  \<open>''flows'' \<in> set (map snd DOMAIN_RULES)
   \<and> transform_content ''gettext("Hello")'' ''flows'' = Inr ''dgettext("flows", "Hello")''
   \<and> transform_content ''dgettext("flows", "Hello")'' ''flows'' = Inr ''dgettext("flows", "Hello")''\<close>
  using transform_content_idempotent [of "''flows''" \<open>''gettext("Hello")''\<close>]
  by (simp add: DOMAIN_RULES_def transform_content_plain form_sub_def
      RE_GETTEXT_def RE_NGETTEXT_def RE_MOD_GETTEXT_def RE_MOD_NGETTEXT_def mod_form_def
      word_start_def is_word_def)

text \<open>
  C5. In a run in which the backup is there and every file parses, the verifier ends with
  a non-zero exit code if and only if one of the two defect sets is non-empty, and with
  exit code 0 when both are empty; \<open>missing_keys\<close> and \<open>lost_keys\<close> are the sets as the
  specification words them.
\<close>

theorem verifier_exit_code:
  assumes b: "parse_po_entries backup_text = Inr backup"
    and ts: "map (\<lambda>(f, c). parse_po_entries c) (po_files listing) = map Inr tables"
  shows "\<exists>code. verifier_main (Some backup_text) listing = Inr code
     \<and> (code \<noteq> 0 \<longleftrightarrow> missing_keys backup tables \<noteq> {} \<or> lost_keys backup tables \<noteq> {})
     \<and> (missing_keys backup tables = {} \<and> lost_keys backup tables = {} \<longrightarrow> code = 0)"
proof -
  define agg where "agg = merge_tables tables ([], {})"
  have d: "\<forall>t\<in>set tables. distinct (map fst t)"
    using parsed_tables_distinct [OF ts] .
  have db: "distinct (map fst backup)"
    using parse_po_entries_distinct [OF b] .
  have mf: "merge_files (po_files listing) ([], {}) = Inr (fst agg, snd agg)"
    using merge_files_tables [OF ts] by (simp add: agg_def)
  have pres: "snd agg = (\<Union>t\<in>set tables. fst ` set t)"
    by (simp add: agg_def merge_tables_present)
  have tr: "map_of (fst agg) k
      = (case find (\<lambda>t. has_translation t k) tables of None \<Rightarrow> None | Some t \<Rightarrow> map_of t k)" for k
    using merge_tables_translated [OF d, of "([], {})"] by (simp add: agg_def)
  have untr: "(case map_of (fst agg) k of None \<Rightarrow> True | Some v \<Rightarrow> v = [])
      \<longleftrightarrow> (\<forall>t\<in>set tables. \<not> has_translation t k)" for k
  proof (cases "find (\<lambda>t. has_translation t k) tables")
    case None
    then have "\<forall>t\<in>set tables. \<not> has_translation t k"
      by (simp add: find_None_iff)
    then show ?thesis by (simp add: tr None)
  next
    case (Some t)
    then have ht: "has_translation t k" "t \<in> set tables"
      by (auto simp: find_Some_iff)
    then obtain v where v: "map_of t k = Some v" "v \<noteq> []"
      by (auto simp: has_translation_def split: option.splits)
    have "map_of (fst agg) k = Some v"
      by (simp add: tr Some v)
    then show ?thesis
      using ht v by auto
  qed
  have missing: "filter (\<lambda>k. k \<notin> snd agg) (map fst backup) \<noteq> []
      \<longleftrightarrow> missing_keys backup tables \<noteq> {}"
  proof -
    have "k \<notin> snd agg \<longleftrightarrow> (\<forall>t\<in>set tables. map_of t k = None)" for k
      by (simp add: pres map_of_eq_None_iff)
    then have "missing_keys backup tables = {k \<in> fst ` set backup. k \<notin> snd agg}"
      unfolding missing_keys_def by auto
    moreover have "filter (\<lambda>k. k \<notin> snd agg) (map fst backup) \<noteq> []
        \<longleftrightarrow> {k \<in> fst ` set backup. k \<notin> snd agg} \<noteq> {}"
      unfolding filter_empty_conv by auto
    ultimately show ?thesis by simp
  qed
  have ht: "k \<in> fst ` set backup \<and> has_translation backup k
      \<longleftrightarrow> (\<exists>v. (k, v) \<in> set backup \<and> v \<noteq> [])" for k
  proof
    assume "k \<in> fst ` set backup \<and> has_translation backup k"
    then obtain v where "map_of backup k = Some v" "v \<noteq> []"
      by (auto simp: has_translation_def split: option.splits)
    then show "\<exists>v. (k, v) \<in> set backup \<and> v \<noteq> []"
      using map_of_SomeD by fast
  next
    assume "\<exists>v. (k, v) \<in> set backup \<and> v \<noteq> []"
    then obtain v where v: "(k, v) \<in> set backup" "v \<noteq> []" by blast
    then have "map_of backup k = Some v"
      using db by simp
    then show "k \<in> fst ` set backup \<and> has_translation backup k"
      using v by (force simp: has_translation_def)
  qed
  have lost: "filter (\<lambda>k. case map_of (fst agg) k of None \<Rightarrow> True | Some v \<Rightarrow> v = [])
        (map fst (filter (\<lambda>(k, v). v \<noteq> []) backup)) \<noteq> []
      \<longleftrightarrow> lost_keys backup tables \<noteq> {}"
  proof -
    have "lost_keys backup tables
        = {k. (\<exists>v. (k, v) \<in> set backup \<and> v \<noteq> []) \<and> (\<forall>t\<in>set tables. \<not> has_translation t k)}"
      unfolding lost_keys_def using ht by auto
    moreover have "filter (\<lambda>k. \<forall>t\<in>set tables. \<not> has_translation t k)
          (map fst (filter (\<lambda>(k, v). v \<noteq> []) backup)) \<noteq> []
        \<longleftrightarrow> {k. (\<exists>v. (k, v) \<in> set backup \<and> v \<noteq> [])
               \<and> (\<forall>t\<in>set tables. \<not> has_translation t k)} \<noteq> {}"
      unfolding filter_empty_conv by force
    ultimately show ?thesis
      by (simp only: untr)
  qed
  define code :: nat
    where "code = (if missing_keys backup tables \<noteq> {} \<or> lost_keys backup tables \<noteq> {} then 1 else 0)"
  have "verifier_main (Some backup_text) listing = Inr code"
    using missing lost by (simp add: verifier_main_def b mf Let_def case_prod_beta code_def)
  moreover have "code \<noteq> 0 \<longleftrightarrow> missing_keys backup tables \<noteq> {} \<or> lost_keys backup tables \<noteq> {}"
    by (simp add: code_def)
  moreover have "missing_keys backup tables = {} \<and> lost_keys backup tables = {} \<longrightarrow> code = 0"
    by (simp add: code_def)
  ultimately show ?thesis by blast
qed

theorem verifier_exit_code_witness:
  \<open>parse_po_entries (''msgid "Save"'' @ [NL] @ ''msgstr "Guardar"'' @ [NL, NL]
         @ ''msgid "Cancel"'' @ [NL] @ ''msgstr "Cancelar"'' @ [NL])
     = Inr [(Simple ''Save'', ''Guardar''), (Simple ''Cancel'', ''Cancelar'')]
   \<and> map (\<lambda>(f, c). parse_po_entries c)
        (po_files [(''b.po'', ''msgid "Cancel"'' @ [NL] @ ''msgstr ""'' @ [NL]),
                   (''a.po'', ''msgid "Save"'' @ [NL] @ ''msgstr "Guardar"'' @ [NL])])
       = map Inr [[(Simple ''Save'', ''Guardar'')], [(Simple ''Cancel'', [])]]
   \<and> missing_keys [(Simple ''Save'', ''Guardar''), (Simple ''Cancel'', ''Cancelar'')]
        [[(Simple ''Save'', ''Guardar'')], [(Simple ''Cancel'', [])]] = {}
   \<and> lost_keys [(Simple ''Save'', ''Guardar''), (Simple ''Cancel'', ''Cancelar'')]
        [[(Simple ''Save'', ''Guardar'')], [(Simple ''Cancel'', [])]] = {Simple ''Cancel''}
   \<and> verifier_main
        (Some (''msgid "Save"'' @ [NL] @ ''msgstr "Guardar"'' @ [NL, NL]
                @ ''msgid "Cancel"'' @ [NL] @ ''msgstr "Cancelar"'' @ [NL]))
        [(''b.po'', ''msgid "Cancel"'' @ [NL] @ ''msgstr ""'' @ [NL]),
         (''a.po'', ''msgid "Save"'' @ [NL] @ ''msgstr "Guardar"'' @ [NL])]
       = Inr 1
   \<and> verifier_main
        (Some (''msgid "Save"'' @ [NL] @ ''msgstr "Guardar"'' @ [NL, NL]
                @ ''msgid "Cancel"'' @ [NL] @ ''msgstr "Cancelar"'' @ [NL]))
        [(''b.po'', ''msgid "Cancel"'' @ [NL] @ ''msgstr "Cancelar"'' @ [NL]),
         (''a.po'', ''msgid "Save"'' @ [NL] @ ''msgstr "Guardar"'' @ [NL])]
       = Inr 0\<close>
proof -
  have e: \<open>parse_po_entries (''msgid "Save"'' @ [NL] @ ''msgstr "Guardar"'' @ [NL, NL]
         @ ''msgid "Cancel"'' @ [NL] @ ''msgstr "Cancelar"'' @ [NL])
     = Inr [(Simple ''Save'', ''Guardar''), (Simple ''Cancel'', ''Cancelar'')]
   \<and> map (\<lambda>(f, c). parse_po_entries c)
        (po_files [(''b.po'', ''msgid "Cancel"'' @ [NL] @ ''msgstr ""'' @ [NL]),
                   (''a.po'', ''msgid "Save"'' @ [NL] @ ''msgstr "Guardar"'' @ [NL])])
       = map Inr [[(Simple ''Save'', ''Guardar'')], [(Simple ''Cancel'', [])]]
   \<and> missing_keys [(Simple ''Save'', ''Guardar''), (Simple ''Cancel'', ''Cancelar'')]
        [[(Simple ''Save'', ''Guardar'')], [(Simple ''Cancel'', [])]] = {}
   \<and> lost_keys [(Simple ''Save'', ''Guardar''), (Simple ''Cancel'', ''Cancelar'')]
        [[(Simple ''Save'', ''Guardar'')], [(Simple ''Cancel'', [])]] = {Simple ''Cancel''}
   \<and> verifier_main
        (Some (''msgid "Save"'' @ [NL] @ ''msgstr "Guardar"'' @ [NL, NL]
                @ ''msgid "Cancel"'' @ [NL] @ ''msgstr "Cancelar"'' @ [NL]))
        [(''b.po'', ''msgid "Cancel"'' @ [NL] @ ''msgstr ""'' @ [NL]),
         (''a.po'', ''msgid "Save"'' @ [NL] @ ''msgstr "Guardar"'' @ [NL])]
       = Inr 1
   \<and> verifier_main
        (Some (''msgid "Save"'' @ [NL] @ ''msgstr "Guardar"'' @ [NL, NL]
                @ ''msgid "Cancel"'' @ [NL] @ ''msgstr "Cancelar"'' @ [NL]))
        [(''b.po'', ''msgid "Cancel"'' @ [NL] @ ''msgstr "Cancelar"'' @ [NL]),
         (''a.po'', ''msgid "Save"'' @ [NL] @ ''msgstr "Guardar"'' @ [NL])]
       = Inr 0\<close>
    by code_simp
  show ?thesis
    using verifier_exit_code
      [of \<open>''msgid "Save"'' @ [NL] @ ''msgstr "Guardar"'' @ [NL, NL]
            @ ''msgid "Cancel"'' @ [NL] @ ''msgstr "Cancelar"'' @ [NL]\<close>
          "[(Simple ''Save'', ''Guardar''), (Simple ''Cancel'', ''Cancelar'')]"
          \<open>[(''b.po'', ''msgid "Cancel"'' @ [NL] @ ''msgstr ""'' @ [NL]),
            (''a.po'', ''msgid "Save"'' @ [NL] @ ''msgstr "Guardar"'' @ [NL])]\<close>
          "[[(Simple ''Save'', ''Guardar'')], [(Simple ''Cancel'', [])]]"]
    by - (rule e)
qed

text \<open>
  C6, evaluated. The claim says that \<open>fill_block\<close> never overwrites a value that is not
  empty. \<open>fill_block\<close> takes the value for empty when the line of the declaration is
  exactly \<^verbatim>\<open>msgstr ""\<close> (or \<^verbatim>\<open>msgstr[0] ""\<close>), without a look at the continuation lines
  that \<open>parse_po\<close> accumulates into the value. For \<^verbatim>\<open>msgstr ""\<close> continued by \<^verbatim>\<open>"Hola"\<close> the
  value the parser reads is \<^verbatim>\<open>Hola\<close>; \<open>fill_block\<close> finds the empty declaration, writes the
  translation \<^verbatim>\<open>X\<close> into its line and counts the block as filled, and the value of the new
  block is \<^verbatim>\<open>XHola\<close>. The same happens to \<^verbatim>\<open>msgstr[0] ""\<close> with a continuation line.
\<close>

theorem fill_block_overwrites_continued_value:
  \<open>parse_po (''msgid "a"'' @ [NL] @ ''msgstr ""'' @ [NL] @ ''"Hola"'') = Inr [(Simple ''a'', ''Hola'')]
   \<and> fill_block (''msgid "a"'' @ [NL] @ ''msgstr ""'' @ [NL] @ ''"Hola"'') [(Simple ''a'', ''X'')]
       = Inr (''msgid "a"'' @ [NL] @ ''msgstr "X"'' @ [NL] @ ''"Hola"'', 1, 1)
   \<and> parse_po (''msgid "a"'' @ [NL] @ ''msgstr "X"'' @ [NL] @ ''"Hola"'') = Inr [(Simple ''a'', ''XHola'')]
   \<and> parse_po (''msgid "n"'' @ [NL] @ ''msgid_plural "ns"'' @ [NL] @ ''msgstr[0] ""'' @ [NL] @ ''"uno"'')
       = Inr [(Plural ''n'' ''ns'', ''uno'')]
   \<and> fill_block (''msgid "n"'' @ [NL] @ ''msgid_plural "ns"'' @ [NL] @ ''msgstr[0] ""'' @ [NL] @ ''"uno"'')
         [(Plural ''n'' ''ns'', ''X'')]
       = Inr (''msgid "n"'' @ [NL] @ ''msgid_plural "ns"'' @ [NL] @ ''msgstr[0] "X"'' @ [NL] @ ''"uno"'', 1, 1)
   \<and> parse_po (''msgid "n"'' @ [NL] @ ''msgid_plural "ns"'' @ [NL] @ ''msgstr[0] "X"'' @ [NL] @ ''"uno"'')
       = Inr [(Plural ''n'' ''ns'', ''Xuno'')]\<close>
  by code_simp

text \<open>
  C7, evaluated. The claim says that \<open>fill_block\<close> looks a block up under the accumulated
  key of a \<^verbatim>\<open>msgid\<close> that continues over several quoted lines, the key the parser has for
  it. \<open>fill_block\<close> takes the first line's fragment only (the loop over the continuation
  lines does nothing). For \<^verbatim>\<open>msgid ""\<close> continued by \<^verbatim>\<open>"Hello"\<close> the parser's key is
  \<^verbatim>\<open>Hello\<close>, and \<open>fill_block\<close> reads the empty key, takes the block for the header and
  returns it unfilled and uncounted although the table has \<^verbatim>\<open>Hello\<close>; for \<^verbatim>\<open>msgid "Hel"\<close>
  continued by \<^verbatim>\<open>"lo"\<close> it looks up \<^verbatim>\<open>Hel\<close>.
\<close>

theorem fill_block_multiline_key:
  \<open>parse_po (''msgid ""'' @ [NL] @ ''"Hello"'' @ [NL] @ ''msgstr ""'') = Inr [(Simple ''Hello'', [])]
   \<and> fill_msgid (''msgid ""'' @ [NL] @ ''"Hello"'' @ [NL] @ ''msgstr ""'') = Some []
   \<and> fill_block (''msgid ""'' @ [NL] @ ''"Hello"'' @ [NL] @ ''msgstr ""'') [(Simple ''Hello'', ''Hola'')]
       = Inr (''msgid ""'' @ [NL] @ ''"Hello"'' @ [NL] @ ''msgstr ""'', 0, 0)
   \<and> parse_po (''msgid "Hel"'' @ [NL] @ ''"lo"'' @ [NL] @ ''msgstr ""'') = Inr [(Simple ''Hello'', [])]
   \<and> fill_key (''msgid "Hel"'' @ [NL] @ ''"lo"'' @ [NL] @ ''msgstr ""'') = Some (Simple ''Hel'')
   \<and> fill_block (''msgid "Hel"'' @ [NL] @ ''"lo"'' @ [NL] @ ''msgstr ""'') [(Simple ''Hello'', ''Hola'')]
       = Inr (''msgid "Hel"'' @ [NL] @ ''"lo"'' @ [NL] @ ''msgstr ""'', 0, 1)
   \<and> fill_block (''msgid "Hel"'' @ [NL] @ ''"lo"'' @ [NL] @ ''msgstr ""'')
         [(Simple ''Hello'', ''Hola''), (Simple ''Hel'', ''X'')]
       = Inr (''msgid "Hel"'' @ [NL] @ ''"lo"'' @ [NL] @ ''msgstr "X"'', 1, 1)\<close>
  by code_simp

text \<open>
  C8. For every relative path \<open>p\<close>, \<open>get_domain p\<close> is the label of the first rule of
  \<open>DOMAIN_RULES\<close>, in the order of the table, whose prefix is a string prefix of \<open>p\<close>
  (no rule before it matches), and it is \<open>None\<close> when no rule's prefix is a prefix
  of \<open>p\<close>.
\<close>

theorem get_domain_first_match:
  "(\<exists>i<length DOMAIN_RULES. startswith p (fst (DOMAIN_RULES ! i))
        \<and> (\<forall>j<i. \<not> startswith p (fst (DOMAIN_RULES ! j)))
        \<and> get_domain p = Some (snd (DOMAIN_RULES ! i)))
   \<or> ((\<forall>i<length DOMAIN_RULES. \<not> startswith p (fst (DOMAIN_RULES ! i)))
        \<and> get_domain p = None)"
  unfolding get_domain_def by (rule first_rule_spec)

theorem get_domain_first_match_witness:
  "startswith ''storyarn_web/components/sidebar/flow_tree.ex'' (fst (DOMAIN_RULES ! 3))
   \<and> \<not> startswith ''storyarn_web/components/sidebar/flow_tree.ex'' (fst (DOMAIN_RULES ! 0))
   \<and> \<not> startswith ''storyarn_web/components/sidebar/flow_tree.ex'' (fst (DOMAIN_RULES ! 1))
   \<and> \<not> startswith ''storyarn_web/components/sidebar/flow_tree.ex'' (fst (DOMAIN_RULES ! 2))
   \<and> get_domain ''storyarn_web/components/sidebar/flow_tree.ex'' = Some ''flows''
   \<and> get_domain ''storyarn/repo.ex'' = None"
  using get_domain_first_match [of "''storyarn_web/components/sidebar/flow_tree.ex''"]
  by (simp add: get_domain_def DOMAIN_RULES_def startswith_def)


text \<open>
  C10. In every content \<open>pre @ ''Gettext.gettext('' @ rest\<close>, that is wherever a
  module-qualified call stands in a text, when the first argument of the call is not the
  handle \<^verbatim>\<open>StoryarnWeb.Gettext\<close> (so that form C does not match the call), the bare form A
  still matches its \<^verbatim>\<open>gettext(\<close> after the dot, and \<open>transform_content\<close> writes the domain
  before the first argument: the result is the transform of \<open>pre\<close>, then
  \<^verbatim>\<open>Gettext.dgettext("d", \<close>, then the transform of \<open>rest\<close>, for every label \<open>d\<close> of the
  routing table.
\<close>

theorem transform_content_other_handle:
  assumes "d \<in> set (map snd DOMAIN_RULES)"
    and "\<not> startswith (dropWhile is_space rest) ''StoryarnWeb.Gettext,''"
  shows \<open>RE_GETTEXT (Some (CHR ''.'')) (''gettext('' @ rest) = Some (8, [])
     \<and> (\<exists>p r. transform_content pre d = Inr p \<and> transform_content rest d = Inr r
          \<and> transform_content (pre @ ''Gettext.gettext('' @ rest) d
                = Inr (p @ ''Gettext.dgettext("'' @ d @ ''", '' @ r))\<close>
proof -
  have d: "BSLASH \<notin> set d" "CHR ''('' \<notin> set d"
    using domain_labels_plain [OF assms(1)] by simp_all
  define T where \<open>T = (\<lambda>c.
    form_sub (bare ''ngettext('') (''dngettext("'' @ d @ ''", '') None
      (form_sub (bare ''gettext('') (''dgettext("'' @ d @ ''", '') None
        (form_sub RE_MOD_NGETTEXT (''Gettext.dngettext(StoryarnWeb.Gettext, "'' @ d @ ''", '') None
          (form_sub RE_MOD_GETTEXT (''Gettext.dgettext(StoryarnWeb.Gettext, "'' @ d @ ''", '') None
             c))))\<close>
  have t: "transform_content c d = Inr (T c)" for c
    by (simp only: transform_content_plain [OF d(1)] RE_GETTEXT_bare RE_NGETTEXT_bare T_def)
  have \<open>T (pre @ ''Gettext.gettext('' @ rest)
      = T pre @ ''Gettext.'' @ (''dgettext("'' @ d @ ''", '') @ T rest\<close>
    by (simp only: T_def callC [OF assms(2)] callD callA callB [OF d(2)])
  then have \<open>T (pre @ ''Gettext.gettext('' @ rest)
      = T pre @ ''Gettext.dgettext("'' @ d @ ''", '' @ T rest\<close>
    by simp
  moreover have "RE_GETTEXT (Some (CHR ''.'')) (''gettext('' @ rest) = Some (8, [])"
    by (simp add: RE_GETTEXT_def)
  ultimately show ?thesis using t by simp
qed

theorem transform_content_other_handle_witness:
  \<open>''flows'' \<in> set (map snd DOMAIN_RULES)
   \<and> \<not> startswith (dropWhile is_space ''Other, "x")'') ''StoryarnWeb.Gettext,''
   \<and> RE_GETTEXT (Some (CHR ''.'')) ''gettext(Other, "x")'' = Some (8, [])
   \<and> transform_content ''t = '' ''flows'' = Inr ''t = ''
   \<and> transform_content ''Other, "x")'' ''flows'' = Inr ''Other, "x")''
   \<and> transform_content ''t = Gettext.gettext(Other, "x")'' ''flows''
       = Inr ''t = Gettext.dgettext("flows", Other, "x")''\<close>
  using transform_content_other_handle [of "''flows''" \<open>''Other, "x")''\<close> "''t = ''"]
  by (simp add: DOMAIN_RULES_def is_space_def transform_content_plain form_sub_def
      RE_GETTEXT_def RE_NGETTEXT_def RE_MOD_GETTEXT_def RE_MOD_NGETTEXT_def mod_form_def
      word_start_def is_word_def)
end
